theory Spec2Isabelle
  imports Complex_Main "HOL-Library.Word"
begin

unbundle bit_operations_syntax

section \<open>Bytes, Python indexing and the module constants\<close>

text \<open>
  A Python \<open>bytes\<close> object is a list of 8-bit words. Python's integers are unbounded;
  every value the code combines with \<open>&\<close> and \<open>|\<close> is a byte (0..255), so the bitwise
  operations are those of \<open>8 word\<close>, and the comparison of two such values is the unsigned
  order of words. Sizes and offsets that the code subtracts from are \<open>int\<close>; indices that
  only grow from 0 are \<open>nat\<close>.
\<close>

type_synonym byte = "8 word"
type_synonym bytes = "byte list"

text \<open>
  The exceptions the module can raise. The four \<open>ValueError\<close>s of
  \<open>H264PayloadDescriptor.parse\<close> are told apart by their message:
  \<open>NalTooShort\<close> is \<open>ValueError("NAL unit is too short")\<close>,
  \<open>StapLengthTruncated\<close> is \<open>ValueError("STAP-A length field is truncated")\<close>,
  \<open>StapDataTruncated\<close> is \<open>ValueError("STAP-A data is truncated")\<close> and
  \<open>NalTypeUnsupported t\<close> is \<open>ValueError(f"NAL unit type {t} is not supported")\<close>.
\<close>

datatype error =
    IndexError
  | ZeroDivisionError
  | AssertionError
  | StructError
  | NalTooShort
  | StapLengthTruncated
  | StapDataTruncated
  | NalTypeUnsupported byte

definition MAX_FRAME_RATE :: int where "MAX_FRAME_RATE = 30"
definition PACKET_MAX :: int where "PACKET_MAX = 1300"
definition NAL_TYPE_FU_A :: byte where "NAL_TYPE_FU_A = 28"
definition NAL_TYPE_STAP_A :: byte where "NAL_TYPE_STAP_A = 24"
definition NAL_HEADER_SIZE :: nat where "NAL_HEADER_SIZE = 1"
definition FU_A_HEADER_SIZE :: nat where "FU_A_HEADER_SIZE = 2"
definition LENGTH_FIELD_SIZE :: nat where "LENGTH_FIELD_SIZE = 2"
definition STAP_A_HEADER_SIZE :: nat where
  "STAP_A_HEADER_SIZE = NAL_HEADER_SIZE + LENGTH_FIELD_SIZE"

text \<open>\<open>bytes([0, 0, 0, 1])\<close>, the four-byte start code the parser writes.\<close>

definition start_code4 :: bytes where
  "start_code4 = [0, 0, 0, 1]"

text \<open>
  \<open>data[a:b]\<close> for indices that are not negative (the only ones the module computes):
  the slice is clamped to the buffer and never raises. \<open>data[a:]\<close> is \<open>drop a data\<close>.
\<close>

definition py_slice :: "'a list \<Rightarrow> nat \<Rightarrow> nat \<Rightarrow> 'a list" where
  "py_slice data a b = take (b - a) (drop a data)"

text \<open>
  \<open>pairwise(iterable)\<close>: \<open>tee\<close>, advance the second copy once, \<open>zip\<close>.
\<close>

definition py_pairwise :: "'a list \<Rightarrow> ('a \<times> 'a) list" where
  "py_pairwise xs = zip xs (tl xs)"

text \<open>
  \<open>struct.pack("!H", n)\<close> raises \<open>struct.error\<close> outside 0..65535 and otherwise gives the
  two bytes of \<open>n\<close>, most significant first; \<open>unpack_from("!H", data, pos)[0]\<close> reads them
  back (the caller has checked that both bytes are there).
\<close>

definition pack_H :: "nat \<Rightarrow> error + bytes" where
  "pack_H n = (if n > 65535 then Inl StructError
               else Inr [word_of_nat (n div 256), word_of_nat (n mod 256)])"

definition unpack_H :: "bytes \<Rightarrow> nat \<Rightarrow> nat" where
  "unpack_H data pos = unat (data ! pos) * 256 + unat (data ! (pos + 1))"

section \<open>The payload descriptor parser\<close>

record H264PayloadDescriptor =
  first_fragment :: bool

text \<open>
  The \<open>while pos < len(data)\<close> loop of the STAP-A branch: it collects the offset of each
  aggregated unit and raises when a length field or a unit's bytes are cut short.
\<close>

function stap_a_offsets :: "bytes \<Rightarrow> nat \<Rightarrow> nat list \<Rightarrow> error + nat list" where
  "stap_a_offsets data pos offsets =
     (if pos < length data then
        (if length data < pos + LENGTH_FIELD_SIZE then Inl StapLengthTruncated
         else
           let nulu_size = unpack_H data pos;
               pos1 = pos + LENGTH_FIELD_SIZE;
               offsets1 = offsets @ [pos1];
               pos2 = pos1 + nulu_size
           in if length data < pos2 then Inl StapDataTruncated
              else stap_a_offsets data pos2 offsets1)
      else Inr offsets)"
  by pat_completeness auto
termination
  by (relation "measure (\<lambda>(data, pos, offsets). length data - pos)")
     (auto simp: LENGTH_FIELD_SIZE_def)

declare stap_a_offsets.simps [simp del]

text \<open>
  The \<open>for start, end in pairwise(offsets)\<close> loop: each unit is written behind a
  four-byte start code.
\<close>

fun stap_a_output :: "bytes \<Rightarrow> (nat \<times> nat) list \<Rightarrow> bytes \<Rightarrow> bytes" where
  "stap_a_output data [] output = output"
| "stap_a_output data ((start, end) # ps) output =
     stap_a_output data ps
       (output @ start_code4 @ py_slice data start (end - LENGTH_FIELD_SIZE))"

definition parse :: "bytes \<Rightarrow> error + (H264PayloadDescriptor \<times> bytes)" where
  "parse data =
     (if length data < 2 then Inl NalTooShort
      else
        let nal_type = data ! 0 AND 0x1F;
            f_nri = data ! 0 AND (0x80 OR 0x60);
            pos = NAL_HEADER_SIZE
        in if 1 \<le> nal_type \<and> nal_type < 24 then
             Inr (\<lparr>first_fragment = True\<rparr>, start_code4 @ data)
           else if nal_type = NAL_TYPE_FU_A then
             (let original_nal_type = data ! pos AND 0x1F;
                  ff = (data ! pos AND 0x80 \<noteq> 0);
                  pos1 = pos + 1;
                  output = (if ff then start_code4 @ [f_nri OR original_nal_type] else [])
                           @ drop pos1 data
              in Inr (\<lparr>first_fragment = ff\<rparr>, output))
           else if nal_type = NAL_TYPE_STAP_A then
             (case stap_a_offsets data pos [] of
                Inl e \<Rightarrow> Inl e
              | Inr offsets \<Rightarrow>
                  Inr (\<lparr>first_fragment = True\<rparr>,
                       stap_a_output data
                         (py_pairwise (offsets @ [length data + LENGTH_FIELD_SIZE])) []))
           else Inl (NalTypeUnsupported nal_type))"


section \<open>The start-code scanner\<close>

text \<open>
  \<open>buf[i]\<close> raises \<open>IndexError\<close> when \<open>i\<close> is not below \<open>len(buf)\<close>, and \<open>or\<close> and \<open>and\<close>
  evaluate their right operand only when the left one does not decide. The value of a
  condition is \<open>None\<close> when its evaluation raises \<open>IndexError\<close>.
\<close>

definition byte_ne :: "bytes \<Rightarrow> nat \<Rightarrow> byte \<Rightarrow> bool option" where
  "byte_ne buf i v = (if i < length buf then Some (buf ! i \<noteq> v) else None)"

definition py_or :: "bool option \<Rightarrow> bool option \<Rightarrow> bool option" where
  "py_or a b = (case a of None \<Rightarrow> None | Some x \<Rightarrow> if x then Some True else b)"

definition py_and :: "bool option \<Rightarrow> bool option \<Rightarrow> bool option" where
  "py_and a b = (case a of None \<Rightarrow> None | Some x \<Rightarrow> if x then b else Some False)"

text \<open>\<open>buf[i] != 0 or buf[i + 1] != 0 or buf[i + 2] != 0x01\<close>\<close>

definition not_start3 :: "bytes \<Rightarrow> nat \<Rightarrow> bool option" where
  "not_start3 buf i =
     py_or (py_or (byte_ne buf i 0) (byte_ne buf (i + 1) 0)) (byte_ne buf (i + 2) 1)"

text \<open>\<open>buf[i] != 0 or buf[i + 1] != 0 or buf[i + 2] != 0 or buf[i + 3] != 0x01\<close>\<close>

definition not_start4 :: "bytes \<Rightarrow> nat \<Rightarrow> bool option" where
  "not_start4 buf i =
     py_or (py_or (py_or (byte_ne buf i 0) (byte_ne buf (i + 1) 0)) (byte_ne buf (i + 2) 0))
       (byte_ne buf (i + 3) 1)"

text \<open>\<open>buf[i] != 0 or buf[i + 1] != 0 or buf[i + 2] != 0\<close>\<close>

definition not_zeros3 :: "bytes \<Rightarrow> nat \<Rightarrow> bool option" where
  "not_zeros3 buf i =
     py_or (py_or (byte_ne buf i 0) (byte_ne buf (i + 1) 0)) (byte_ne buf (i + 2) 0)"

text \<open>
  The first inner loop, which skips to a start code. \<open>Inr (Some i)\<close>: the loop was left
  with this index; \<open>Inr None\<close>: the generator returned from inside the loop.
\<close>

function skip_to_start :: "bytes \<Rightarrow> nat \<Rightarrow> error + nat option" where
  "skip_to_start buf i =
     (case py_and (not_start3 buf i) (not_start4 buf i) of
        None \<Rightarrow> Inl IndexError
      | Some c \<Rightarrow>
          if c then (if i + 1 + 4 \<ge> length buf then Inr None else skip_to_start buf (i + 1))
          else Inr (Some i))"
  by pat_completeness auto
termination
  by (relation "measure (\<lambda>(buf, i). length buf - i)") auto

declare skip_to_start.simps [simp del]

text \<open>
  The second inner loop, which looks for the end of the unit. \<open>Inr (Some i)\<close>: the loop
  was left with this index (the unit ends there); \<open>Inr None\<close>: the buffer ended first, the
  generator yields \<open>buf[nal_start:len(buf)]\<close> and returns.
\<close>

function find_nal_end :: "bytes \<Rightarrow> nat \<Rightarrow> error + nat option" where
  "find_nal_end buf i =
     (case py_and (not_zeros3 buf i) (not_start3 buf i) of
        None \<Rightarrow> Inl IndexError
      | Some c \<Rightarrow>
          if c then (if i + 1 + 3 \<ge> length buf then Inr None else find_nal_end buf (i + 1))
          else Inr (Some i))"
  by pat_completeness auto
termination
  by (relation "measure (\<lambda>(buf, i). length buf - i)") auto

declare find_nal_end.simps [simp del]

text \<open>
  How a run of the generator ends: it returns, or an exception leaves it (and reaches the
  consumer's \<open>next\<close>). The units yielded before that are kept in both cases.
\<close>

datatype outcome = Returned | Raised error

lemma skip_to_start_ge: "skip_to_start buf i = Inr (Some j) \<Longrightarrow> i \<le> j"
proof (induction buf i rule: skip_to_start.induct)
  case (1 buf i)
  from "1.prems" show ?case
    by (subst (asm) skip_to_start.simps)
       (auto split: option.splits if_splits dest!: "1.IH")
qed

lemma find_nal_end_ge: "find_nal_end buf i = Inr (Some j) \<Longrightarrow> i \<le> j"
proof (induction buf i rule: find_nal_end.induct)
  case (1 buf i)
  from "1.prems" show ?case
    by (subst (asm) find_nal_end.simps)
       (auto split: option.splits if_splits dest!: "1.IH")
qed

lemma py_and_Some_False_not_zeros3:
  "py_and (not_zeros3 buf j) (not_start3 buf j) = Some False \<Longrightarrow> j + 2 < length buf"
  by (auto simp: py_and_def py_or_def not_zeros3_def not_start3_def byte_ne_def
      split: option.splits if_splits)

lemma find_nal_end_lt: "find_nal_end buf i = Inr (Some j) \<Longrightarrow> j + 2 < length buf"
proof (induction buf i rule: find_nal_end.induct)
  case (1 buf i)
  from "1.prems" show ?case
    by (subst (asm) find_nal_end.simps)
       (auto split: option.splits if_splits dest!: "1.IH" py_and_Some_False_not_zeros3)
qed

text \<open>
  \<open>H264Encoder._split_bitstream\<close>, from index \<open>i\<close> on: the \<open>while True\<close> loop. Each round
  skips to a start code, steps over it (three bytes, or four), finds the end of the unit
  and yields it.
\<close>

function split_bitstream_from :: "bytes \<Rightarrow> nat \<Rightarrow> bytes list \<times> outcome" where
  "split_bitstream_from buf i =
     (case skip_to_start buf i of
        Inl e \<Rightarrow> ([], Raised e)
      | Inr None \<Rightarrow> ([], Returned)
      | Inr (Some i1) \<Rightarrow>
          (case not_start3 buf i1 of
             None \<Rightarrow> ([], Raised IndexError)
           | Some c \<Rightarrow>
               (case find_nal_end buf ((if c then i1 + 1 else i1) + 3) of
                  Inl e \<Rightarrow> ([], Raised e)
                | Inr None \<Rightarrow>
                    ([py_slice buf ((if c then i1 + 1 else i1) + 3) (length buf)], Returned)
                | Inr (Some nal_end) \<Rightarrow>
                    (case split_bitstream_from buf nal_end of
                       (nals, r) \<Rightarrow>
                         (py_slice buf ((if c then i1 + 1 else i1) + 3) nal_end # nals, r)))))"
  by pat_completeness auto
termination
proof (relation "measure (\<lambda>(buf, i). length buf - i)", goal_cases)
  case 1
  show ?case by simp
next
  case (2 buf i x2 i1 c x2a nal_end)
  from 2(1,2) have "i \<le> i1" by (simp add: skip_to_start_ge)
  moreover from 2(4,5) have "i1 + 3 \<le> nal_end" "nal_end + 2 < length buf"
    by (auto dest: find_nal_end_ge find_nal_end_lt split: if_splits)
  ultimately show ?case by simp
qed

declare split_bitstream_from.simps [simp del]

definition split_bitstream :: "bytes \<Rightarrow> bytes list \<times> outcome" where
  "split_bitstream buf = split_bitstream_from buf 0"

text \<open>
  \<open>H264Packer._split_bitstream\<close>: the same round, inside \<open>if(len(buf)>=1+3)\<close>. When the
  test fails the \<open>while True\<close> loop has an empty body and runs again unchanged, so the
  function is partial: \<open>None\<close> is a run that never ends.
\<close>

partial_function (option) packer_split_bitstream_from ::
  "bytes \<Rightarrow> nat \<Rightarrow> (bytes list \<times> outcome) option" where
  "packer_split_bitstream_from buf i =
     (if length buf \<ge> 1 + 3 then
        (case skip_to_start buf i of
           Inl e \<Rightarrow> Some ([], Raised e)
         | Inr None \<Rightarrow> Some ([], Returned)
         | Inr (Some i1) \<Rightarrow>
             (case not_start3 buf i1 of
                None \<Rightarrow> Some ([], Raised IndexError)
              | Some c \<Rightarrow>
                  (case find_nal_end buf ((if c then i1 + 1 else i1) + 3) of
                     Inl e \<Rightarrow> Some ([], Raised e)
                   | Inr None \<Rightarrow>
                       Some ([py_slice buf ((if c then i1 + 1 else i1) + 3) (length buf)],
                             Returned)
                   | Inr (Some nal_end) \<Rightarrow>
                       Option.bind (packer_split_bitstream_from buf nal_end)
                         (\<lambda>(nals, r).
                            Some (py_slice buf ((if c then i1 + 1 else i1) + 3) nal_end # nals,
                                  r)))))
      else packer_split_bitstream_from buf i)"

definition packer_split_bitstream :: "bytes \<Rightarrow> (bytes list \<times> outcome) option" where
  "packer_split_bitstream buf = packer_split_bitstream_from buf 0"

section \<open>The FU-A fragmenter\<close>

text \<open>
  \<open>math.ceil(a / b)\<close>: the quotient of two integers, rounded up. Python computes the
  quotient as a correctly rounded double; the model takes the exact quotient, which gives
  the same ceiling for every size below \<open>2 ^ 42\<close> bytes (there the doubles around the
  quotient are closer together than \<open>1 / 1298\<close>).
\<close>

definition py_ceil_div :: "int \<Rightarrow> int \<Rightarrow> int" where
  "py_ceil_div a b = \<lceil>real_of_int a / real_of_int b\<rceil>"

lemma py_ceil_div_code [code]: "py_ceil_div a b = - ((- a) div b)"
  by (simp add: py_ceil_div_def ceiling_divide_eq_div)

text \<open>
  The \<open>while offset < len(data)\<close> loop and the \<open>assert\<close> behind it. The offsets are never
  negative, so the slices are plain ones. With \<open>package_size = 0\<close> and no larger packet
  left the loop would not advance; the function is partial and \<open>None\<close> is a run that
  never ends.
\<close>

partial_function (option) fu_a_loop ::
  "bytes \<Rightarrow> bytes \<Rightarrow> bytes \<Rightarrow> int \<Rightarrow> int \<Rightarrow> int \<Rightarrow> bytes \<Rightarrow> bytes list \<Rightarrow>
   (error + bytes list) option" where
  "fu_a_loop data fu_header_end fu_header_middle package_size num_larger_packets offset
     fu_header packages =
     (if offset < int (length data) then
        (if num_larger_packets > 0 then
           (let payload = py_slice data (nat offset) (nat (offset + package_size + 1));
                offset1 = offset + package_size + 1;
                fu_header1 = (if offset1 = int (length data) then fu_header_end else fu_header)
            in fu_a_loop data fu_header_end fu_header_middle package_size
                 (num_larger_packets - 1) offset1 fu_header_middle
                 (packages @ [fu_header1 @ payload]))
         else
           (let payload = py_slice data (nat offset) (nat (offset + package_size));
                offset1 = offset + package_size;
                fu_header1 = (if offset1 = int (length data) then fu_header_end else fu_header)
            in fu_a_loop data fu_header_end fu_header_middle package_size
                 num_larger_packets offset1 fu_header_middle
                 (packages @ [fu_header1 @ payload])))
      else if offset = int (length data) then Some (Inr packages)
      else Some (Inl AssertionError))"

definition packetize_fu_a :: "bytes \<Rightarrow> (error + bytes list) option" where
  "packetize_fu_a data =
     (let available_size = PACKET_MAX - int FU_A_HEADER_SIZE;
          payload_size = int (length data) - int NAL_HEADER_SIZE;
          num_packets = py_ceil_div payload_size available_size
      in if num_packets = 0 then Some (Inl ZeroDivisionError)
         else
           let num_larger_packets = payload_size mod num_packets;
               package_size = payload_size div num_packets
           in (case data of
                 [] \<Rightarrow> Some (Inl IndexError)
               | d0 # _ \<Rightarrow>
                   let f_nri = d0 AND (0x80 OR 0x60);
                       nal = d0 AND 0x1F;
                       fu_indicator = f_nri OR NAL_TYPE_FU_A;
                       fu_header_end = [fu_indicator, nal OR 0x40];
                       fu_header_middle = [fu_indicator, nal];
                       fu_header_start = [fu_indicator, nal OR 0x80]
                   in fu_a_loop data fu_header_end fu_header_middle package_size
                        num_larger_packets (int NAL_HEADER_SIZE) fu_header_start []))"

section \<open>The STAP-A aggregator\<close>

text \<open>
  The iterator of units is the list of the units still to come; \<open>next\<close> on the empty list
  is \<open>StopIteration\<close>. \<open>stap_a_try\<close> is the \<open>try\<close> block: the \<open>while\<close> loop, left either because
  the unit at hand does not fit (then, with \<open>counter = 0\<close>, one more unit is pulled) or by
  \<open>StopIteration\<close>, whose handler sets \<open>nalu = None\<close>. It returns the header, the counter,
  the body, \<open>nalu\<close> and the iterator; \<open>nalu[0]\<close> on an empty unit raises \<open>IndexError\<close>.
\<close>

fun stap_a_try ::
  "bytes \<Rightarrow> bytes list \<Rightarrow> int \<Rightarrow> byte \<Rightarrow> nat \<Rightarrow> bytes \<Rightarrow>
   error + (byte \<times> nat \<times> bytes \<times> bytes option \<times> bytes list)" where
  "stap_a_try nalu it available_size stap_header counter payload =
     (if int (length nalu) \<le> available_size then
        (case nalu of
           [] \<Rightarrow> Inl IndexError
         | b # _ \<Rightarrow>
             let stap_header1 = stap_header OR (b AND 0x80);
                 nri = b AND 0x60;
                 stap_header2 = (if stap_header1 AND 0x60 < nri
                                 then stap_header1 AND 0x9F OR nri else stap_header1);
                 available_size1 = available_size - int (LENGTH_FIELD_SIZE + length nalu);
                 counter1 = counter + 1
             in (case pack_H (length nalu) of
                   Inl e \<Rightarrow> Inl e
                 | Inr size_field \<Rightarrow>
                     (case it of
                        [] \<Rightarrow> Inr (stap_header2, counter1, payload @ size_field @ nalu,
                                   None, [])
                      | n # it1 \<Rightarrow>
                          stap_a_try n it1 available_size1 stap_header2 counter1
                            (payload @ size_field @ nalu))))
      else if counter = 0 then
        (case it of
           [] \<Rightarrow> Inr (stap_header, counter, payload, None, [])
         | n # it1 \<Rightarrow> Inr (stap_header, counter, payload, Some n, it1))
      else Inr (stap_header, counter, payload, Some nalu, it))"

declare stap_a_try.simps [simp del]

definition packetize_stap_a ::
  "bytes \<Rightarrow> bytes list \<Rightarrow> error + (bytes \<times> bytes option \<times> bytes list)" where
  "packetize_stap_a data packages_iterator =
     (case data of
        [] \<Rightarrow> Inl IndexError
      | d0 # _ \<Rightarrow>
          (case stap_a_try data packages_iterator (PACKET_MAX - int STAP_A_HEADER_SIZE)
                  (NAL_TYPE_STAP_A OR (d0 AND 0xE0)) 0 [] of
             Inl e \<Rightarrow> Inl e
           | Inr (stap_header, counter, payload, nalu, it) \<Rightarrow>
               if counter \<le> 1 then Inr (data, nalu, it)
               else Inr (stap_header # payload, nalu, it)))"

text \<open>
  What the \<open>try\<close> block computes, unit by unit: \<open>stap_entry n\<close> is what one round appends
  to the body (the two length bytes and the unit) and \<open>stap_header_step h n\<close> is the header
  after a round on unit \<open>n\<close>. \<open>opt_list\<close> turns the unit handed back to the driver (or
  \<open>None\<close>) into a list.
\<close>

definition stap_entry :: "bytes \<Rightarrow> bytes" where
  "stap_entry n = [word_of_nat (length n div 256), word_of_nat (length n mod 256)] @ n"

definition stap_header_step :: "byte \<Rightarrow> bytes \<Rightarrow> byte" where
  "stap_header_step h n =
     (let h1 = h OR (hd n AND 0x80); nri = hd n AND 0x60
      in if h1 AND 0x60 < nri then h1 AND 0x9F OR nri else h1)"

fun opt_list :: "'a option \<Rightarrow> 'a list" where
  "opt_list None = []"
| "opt_list (Some x) = [x]"

lemma stap_a_try_spec:
  "stap_a_try nalu it av hdr c pl = Inr (hdr', c', pl', nalu', it') \<Longrightarrow>
   \<exists>agg. c' = c + length agg \<and>
         pl' = pl @ concat (map stap_entry agg) \<and>
         hdr' = foldl stap_header_step hdr agg \<and>
         (\<forall>n \<in> set agg. n \<noteq> []) \<and>
         (agg \<noteq> [] \<longrightarrow> int (sum_list (map (\<lambda>n. 2 + length n) agg)) \<le> av + 2) \<and>
         (if c' = 0 then it = opt_list nalu' @ it'
          else nalu # it = agg @ opt_list nalu' @ it')"
proof (induction nalu it av hdr c pl rule: stap_a_try.induct)
  case (1 nalu it av hdr c pl)
  show ?case
  proof (cases "int (length nalu) \<le> av")
    case False
    with "1.prems" show ?thesis
      by (subst (asm) stap_a_try.simps) (auto split: if_splits list.splits intro!: exI [of _ "[]"])
  next
    case fit: True
    show ?thesis
    proof (cases nalu)
      case Nil
      with fit "1.prems" show ?thesis
        by (subst (asm) stap_a_try.simps) simp
    next
      case (Cons b bs)
      show ?thesis
      proof (cases "length nalu > 65535")
        case True
        with fit Cons "1.prems" show ?thesis
          by (subst (asm) stap_a_try.simps) (simp add: pack_H_def)
      next
        case small: False
        then have pk: "pack_H (length nalu) = Inr [word_of_nat (length nalu div 256), word_of_nat (length nalu mod 256)]"
          by (simp add: pack_H_def)
        show ?thesis
        proof (cases it)
          case Nil
          with fit Cons pk "1.prems" show ?thesis
            by (subst (asm) stap_a_try.simps)
               (auto simp: Let_def stap_entry_def stap_header_step_def LENGTH_FIELD_SIZE_def
                  intro!: exI [of _ "[nalu]"] simp del: pack_H_def)
        next
          case it: (Cons n it1)
          define h2 where "h2 = stap_header_step hdr nalu"
          define pl1 where "pl1 = pl @ stap_entry nalu"
          define av1 where "av1 = av - int (LENGTH_FIELD_SIZE + length nalu)"
          note ih = "1.IH" [OF fit Cons refl refl refl refl refl pk it]
          have h2eq: "(if (hdr OR b AND 0x80) AND 0x60 < b AND 0x60
                       then (hdr OR b AND 0x80) AND 0x9F OR b AND 0x60
                       else hdr OR b AND 0x80) = h2"
            by (simp add: h2_def stap_header_step_def Let_def Cons)
          have pleq: "pl @ [word_of_nat (length nalu div 256), word_of_nat (length nalu mod 256)] @ nalu = pl1"
            by (simp add: pl1_def stap_entry_def)
          have rec: "stap_a_try nalu it av hdr c pl = stap_a_try n it1 av1 h2 (c + 1) pl1"
            using fit Cons pk it
            by (subst stap_a_try.simps)
               (simp add: Let_def h2eq [symmetric] pleq [symmetric] av1_def)
          with "1.prems" have r: "stap_a_try n it1 av1 h2 (c + 1) pl1 = Inr (hdr', c', pl', nalu', it')"
            by simp
          from ih [unfolded h2eq pleq av1_def [symmetric], OF r]
          obtain agg where a: "c' = (c + 1) + length agg"
                 "pl' = pl1 @ concat (map stap_entry agg)"
                 "hdr' = foldl stap_header_step h2 agg"
                 "\<forall>n \<in> set agg. n \<noteq> []"
                 "agg \<noteq> [] \<longrightarrow> int (sum_list (map (\<lambda>n. 2 + length n) agg)) \<le> av1 + 2"
                 "n # it1 = agg @ opt_list nalu' @ it'"
            by (auto split: if_splits)
          have "c' = c + length (nalu # agg)" using a(1) by simp
          moreover have "pl' = pl @ concat (map stap_entry (nalu # agg))"
            using a(2) by (simp add: pl1_def)
          moreover have "hdr' = foldl stap_header_step hdr (nalu # agg)"
            using a(3) by (simp add: h2_def)
          moreover have "\<forall>n \<in> set (nalu # agg). n \<noteq> []"
            using a(4) Cons by simp
          moreover have "int (sum_list (map (\<lambda>n. 2 + length n) (nalu # agg))) \<le> av + 2"
            using a(5) fit by (cases "agg = []") (auto simp: av1_def LENGTH_FIELD_SIZE_def)
          moreover have "c' \<noteq> 0" using a(1) by simp
          moreover have "nalu # it = (nalu # agg) @ opt_list nalu' @ it'"
            using a(6) it by simp
          ultimately show ?thesis
            by (intro exI [of _ "nalu # agg"]) simp
        qed
      qed
    qed
  qed
qed

lemma packetize_stap_a_consumes:
  assumes "packetize_stap_a data it = Inr (packetized, nalu', it')"
  shows "length (opt_list nalu') + length it' \<le> length it"
proof -
  from assms obtain d0 ds hdr' c' pl' where d: "data = d0 # ds"
    and t: "stap_a_try data it (PACKET_MAX - int STAP_A_HEADER_SIZE)
              (NAL_TYPE_STAP_A OR (d0 AND 0xE0)) 0 [] = Inr (hdr', c', pl', nalu', it')"
    by (auto simp: packetize_stap_a_def split: list.splits sum.splits if_splits)
  from stap_a_try_spec [OF t] obtain agg where a: "c' = length agg"
    "if c' = 0 then it = opt_list nalu' @ it' else data # it = agg @ opt_list nalu' @ it'"
    by auto
  show ?thesis
  proof (cases "c' = 0")
    case True
    with a(2) show ?thesis by simp
  next
    case False
    with a have "length (data # it) = length agg + length (opt_list nalu') + length it'"
      by (metis length_append add.assoc)
    with False a(1) show ?thesis by (cases agg) auto
  qed
qed

section \<open>The packetizer driver\<close>

text \<open>\<open>next(packages_iterator, None)\<close>: the next unit, or \<open>None\<close>, and the iterator behind it.\<close>

fun py_next :: "'a list \<Rightarrow> 'a option \<times> 'a list" where
  "py_next [] = (None, [])"
| "py_next (x # xs) = (Some x, xs)"

lemma py_next_length [simp]:
  "length (opt_list (fst (py_next it))) + length (snd (py_next it)) = length it"
  by (cases it) auto

text \<open>The \<open>while package is not None\<close> loop of \<open>_packetize\<close>.\<close>

function packetize_loop ::
  "bytes option \<Rightarrow> bytes list \<Rightarrow> bytes list \<Rightarrow> (error + bytes list) option" where
  "packetize_loop package it packetized_packages =
     (case package of
        None \<Rightarrow> Some (Inr packetized_packages)
      | Some p \<Rightarrow>
          if int (length p) > PACKET_MAX then
            (case packetize_fu_a p of
               None \<Rightarrow> None
             | Some (Inl e) \<Rightarrow> Some (Inl e)
             | Some (Inr frags) \<Rightarrow>
                 packetize_loop (fst (py_next it)) (snd (py_next it))
                   (packetized_packages @ frags))
          else
            (case packetize_stap_a p it of
               Inl e \<Rightarrow> Some (Inl e)
             | Inr (packetized, package1, it1) \<Rightarrow>
                 packetize_loop package1 it1 (packetized_packages @ [packetized])))"
  by pat_completeness auto
termination
proof (relation "measure (\<lambda>(package, it, acc). length (opt_list package) + length it)",
    goal_cases)
  case 1
  show ?case by simp
next
  case 2
  then show ?case by simp
next
  case 3
  then show ?case by (auto dest!: packetize_stap_a_consumes)
qed

declare packetize_loop.simps [simp del]

definition packetize :: "bytes list \<Rightarrow> (error + bytes list) option" where
  "packetize packages =
     packetize_loop (fst (py_next packages)) (snd (py_next packages)) []"

section \<open>The parser fails exactly on malformed payloads\<close>

text \<open>
  The specification's reading of a STAP-A body (the payload behind its header byte):
  at each step two bytes of big-endian length \<open>n\<close> must be there, then \<open>n\<close> bytes of
  data. \<open>stap_body_defect\<close> names the first violation, if any, and \<open>stap_units\<close> lists
  the aggregated units.
\<close>

fun stap_body_defect :: "bytes \<Rightarrow> error option" where
  "stap_body_defect [] = None"
| "stap_body_defect [a] = Some StapLengthTruncated"
| "stap_body_defect (a # b # rest) =
     (let n = unat a * 256 + unat b
      in if length rest < n then Some StapDataTruncated
         else stap_body_defect (drop n rest))"

fun stap_units :: "bytes \<Rightarrow> bytes list" where
  "stap_units [] = []"
| "stap_units [a] = []"
| "stap_units (a # b # rest) =
     (let n = unat a * 256 + unat b
      in take n rest # stap_units (drop n rest))"

lemma drop_two:
  "pos + 2 \<le> length data \<Longrightarrow>
   drop pos data = data ! pos # data ! (pos + 1) # drop (pos + 2) data"
  by (metis Cons_nth_drop_Suc Suc_eq_plus1 add_2_eq_Suc' le_eq_less_or_eq not_less_eq_eq
      Suc_le_eq)

lemma drop_one_left:
  assumes "pos < length data" "length data < pos + 2"
  shows "drop pos data = [data ! pos]"
proof -
  from assms have "drop (Suc pos) data = []" by simp
  with assms(1) show ?thesis by (simp add: Cons_nth_drop_Suc [symmetric])
qed

lemma stap_a_offsets_end:
  "\<not> pos < length data \<Longrightarrow> stap_a_offsets data pos offsets = Inr offsets"
  by (simp add: stap_a_offsets.simps)

lemma stap_a_offsets_short:
  "pos < length data \<Longrightarrow> length data < pos + 2 \<Longrightarrow>
   stap_a_offsets data pos offsets = Inl StapLengthTruncated"
  by (simp add: stap_a_offsets.simps [of data pos] LENGTH_FIELD_SIZE_def)

lemma stap_a_offsets_cut:
  "pos + 2 \<le> length data \<Longrightarrow> length data < pos + 2 + unpack_H data pos \<Longrightarrow>
   stap_a_offsets data pos offsets = Inl StapDataTruncated"
  by (simp add: stap_a_offsets.simps [of data pos] LENGTH_FIELD_SIZE_def Let_def)

lemma stap_a_offsets_step:
  "pos + 2 \<le> length data \<Longrightarrow> pos + 2 + unpack_H data pos \<le> length data \<Longrightarrow>
   stap_a_offsets data pos offsets =
   stap_a_offsets data (pos + 2 + unpack_H data pos) (offsets @ [pos + 2])"
  by (simp add: stap_a_offsets.simps [of data pos] LENGTH_FIELD_SIZE_def Let_def)

lemma stap_a_offsets_defect:
  "pos \<le> length data \<Longrightarrow>
   (case stap_body_defect (drop pos data) of
      Some e \<Rightarrow> stap_a_offsets data pos offs = Inl e
    | None \<Rightarrow> (\<exists>os. stap_a_offsets data pos offs = Inr os))"
proof (induction data pos offs rule: stap_a_offsets.induct)
  case (1 data pos offsets)
  show ?case
  proof (cases "pos < length data")
    case False
    then have "stap_a_offsets data pos offsets = Inr offsets"
      by (rule stap_a_offsets_end)
    moreover from False 1 have "drop pos data = []" by simp
    ultimately show ?thesis by simp
  next
    case lt: True
    show ?thesis
    proof (cases "length data < pos + 2")
      case True
      with lt show ?thesis
        by (simp add: drop_one_left stap_a_offsets_short)
    next
      case False
      then have d: "drop pos data = data ! pos # data ! (pos + 1) # drop (pos + 2) data"
        by (simp add: drop_two)
      show ?thesis
      proof (cases "length data < pos + 2 + unpack_H data pos")
        case True
        with False have "stap_a_offsets data pos offsets = Inl StapDataTruncated"
          by (simp add: stap_a_offsets_cut)
        moreover from True False
        have "stap_body_defect (drop pos data) = Some StapDataTruncated"
          by (auto simp add: d unpack_H_def Let_def)
        ultimately show ?thesis by simp
      next
        case nt: False
        have ih: "case stap_body_defect (drop (pos + 2 + unpack_H data pos) data) of
                    None \<Rightarrow> \<exists>os. stap_a_offsets data (pos + 2 + unpack_H data pos)
                                    (offsets @ [pos + 2]) = Inr os
                  | Some e \<Rightarrow> stap_a_offsets data (pos + 2 + unpack_H data pos)
                                    (offsets @ [pos + 2]) = Inl e"
          using "1.IH" [OF lt _ refl refl refl refl] False nt
          unfolding LENGTH_FIELD_SIZE_def by simp
        have "stap_body_defect (drop pos data) =
              stap_body_defect (drop (pos + 2 + unpack_H data pos) data)"
          using nt False by (simp add: d unpack_H_def Let_def add.commute add.left_commute)
        moreover have "stap_a_offsets data pos offsets =
              stap_a_offsets data (pos + 2 + unpack_H data pos) (offsets @ [pos + 2])"
          using False nt by (simp add: stap_a_offsets_step)
        ultimately show ?thesis using ih by (simp split: option.splits)
      qed
    qed
  qed
qed

lemma word_lt24: "((t::byte) < 24) = (t \<le> 23)"
  by (simp add: word_less_nat_alt word_le_nat_alt) arith

text \<open>
  Claim C8. \<open>parse\<close> raises exactly on a malformed payload, and each error names its
  defect: \<open>NalTooShort\<close> when the payload has fewer than two bytes; for a STAP-A payload
  (type 24) the first defect of its body, a length field that does not fit
  (\<open>StapLengthTruncated\<close>) or declared bytes that are missing (\<open>StapDataTruncated\<close>);
  \<open>NalTypeUnsupported\<close> when the type, the low five bits of the first byte, is outside
  1..23, 24 and 28. On every other payload it returns a descriptor and the output bytes.
\<close>

theorem parse_raises_iff_malformed:
  "(parse data = Inl e \<longleftrightarrow>
      (length data < 2 \<and> e = NalTooShort) \<or>
      (2 \<le> length data \<and> data ! 0 AND 0x1F = 24 \<and>
         stap_body_defect (drop 1 data) = Some e) \<or>
      (2 \<le> length data \<and> data ! 0 AND 0x1F \<notin> {1..23} \<union> {24, 28} \<and>
         e = NalTypeUnsupported (data ! 0 AND 0x1F)))
   \<and>
   ((\<exists>d out. parse data = Inr (d, out)) \<longleftrightarrow>
      2 \<le> length data \<and> data ! 0 AND 0x1F \<in> {1..23} \<union> {24, 28} \<and>
      (data ! 0 AND 0x1F = 24 \<longrightarrow> stap_body_defect (drop 1 data) = None))"
proof -
  have off: "case stap_body_defect (drop 1 data) of
               Some e \<Rightarrow> stap_a_offsets data 1 [] = Inl e
             | None \<Rightarrow> (\<exists>os. stap_a_offsets data 1 [] = Inr os)"
    if "2 \<le> length data"
    using that stap_a_offsets_defect [of 1 data "[]"] by simp
  show ?thesis
  proof (cases "2 \<le> length data")
    case False
    then show ?thesis by (auto simp: parse_def)
  next
    case True
    note o = off [OF True]
    consider (single) "1 \<le> data ! 0 AND 0x1F" "data ! 0 AND 0x1F < 24"
      | (fu) "data ! 0 AND 0x1F = 28"
      | (stap) "data ! 0 AND 0x1F = 24"
      | (other) "\<not> (1 \<le> data ! 0 AND 0x1F \<and> data ! 0 AND 0x1F < 24)"
          "data ! 0 AND 0x1F \<noteq> 28" "data ! 0 AND 0x1F \<noteq> 24"
      by blast
    then show ?thesis
    proof cases
      case single
      with True show ?thesis
        by (auto simp: parse_def Let_def word_lt24)
    next
      case fu
      with True show ?thesis
        by (auto simp: parse_def Let_def NAL_TYPE_FU_A_def)
    next
      case stap
      with True o show ?thesis
        by (auto simp: parse_def Let_def NAL_TYPE_FU_A_def NAL_TYPE_STAP_A_def
            NAL_HEADER_SIZE_def split: option.splits sum.splits)
    next
      case other
      with True show ?thesis
        by (auto simp: parse_def Let_def NAL_TYPE_FU_A_def NAL_TYPE_STAP_A_def word_lt24)
    qed
  qed
qed

text \<open>
  The theorem at the specification's malformed STAP-A payload \<open>78 00 05 67 AA\<close>: the
  entry declares five bytes and two follow.
\<close>

theorem parse_raises_iff_malformed_witness:
  "parse [0x78, 0, 5, 0x67, 0xAA] = Inl StapDataTruncated"
  using parse_raises_iff_malformed [of "[0x78, 0, 5, 0x67, 0xAA]" StapDataTruncated]
  by simp

text \<open>The specification's other parser scenarios, evaluated on the model.\<close>

lemma parse_unsupported_type_example:
  "parse [0x19, 0, 0] = Inl (NalTypeUnsupported 25)"
  by (simp add: parse_def NAL_TYPE_FU_A_def NAL_TYPE_STAP_A_def)


lemma parse_stap_a_example:
  "parse [0x78, 0, 2, 0x67, 0xAA, 0, 2, 0x68, 0xBB] =
   Inr (\<lparr>first_fragment = True\<rparr>, [0, 0, 0, 1, 0x67, 0xAA, 0, 0, 0, 1, 0x68, 0xBB])"
  by (simp add: parse_def stap_a_offsets.simps unpack_H_def py_pairwise_def start_code4_def
      py_slice_def NAL_TYPE_FU_A_def NAL_TYPE_STAP_A_def NAL_HEADER_SIZE_def
      LENGTH_FIELD_SIZE_def)

section \<open>The parser accepts a STAP-A payload with a single unit\<close>

lemma stap_a_output_concat:
  "stap_a_output data ps out =
   out @ concat (map (\<lambda>(s, e). start_code4 @ py_slice data s (e - 2)) ps)"
  by (induction data ps out rule: stap_a_output.induct) (simp_all add: LENGTH_FIELD_SIZE_def)

lemma py_pairwise_Cons: "py_pairwise (x # y # ys) = (x, y) # py_pairwise (y # ys)"
  by (simp add: py_pairwise_def)

lemma stap_a_offsets_units:
  "pos \<le> length data \<Longrightarrow> stap_a_offsets data pos offs = Inr os \<Longrightarrow>
   \<exists>os'. os = offs @ os' \<and> hd (os' @ [length data + 2]) = pos + 2 \<and>
     map (\<lambda>(s, e). py_slice data s (e - 2)) (py_pairwise (os' @ [length data + 2])) =
     stap_units (drop pos data)"
proof (induction data pos offs rule: stap_a_offsets.induct)
  case (1 data pos offsets)
  show ?case
  proof (cases "pos < length data")
    case False
    with "1.prems" have "os = offsets" "pos = length data"
      by (simp_all add: stap_a_offsets_end)
    then show ?thesis by (simp add: py_pairwise_def)
  next
    case lt: True
    from lt "1.prems" have two: "pos + 2 \<le> length data"
      by (cases "length data < pos + 2") (simp_all add: stap_a_offsets_short)
    with "1.prems" have fit: "pos + 2 + unpack_H data pos \<le> length data"
      by (cases "length data < pos + 2 + unpack_H data pos") (simp_all add: stap_a_offsets_cut)
    let ?p2 = "pos + 2 + unpack_H data pos"
    from two fit "1.prems"
    have r: "stap_a_offsets data ?p2 (offsets @ [pos + 2]) = Inr os"
      by (simp add: stap_a_offsets_step)
    have "\<exists>os'. os = (offsets @ [pos + 2]) @ os' \<and> hd (os' @ [length data + 2]) = ?p2 + 2 \<and>
            map (\<lambda>(s, e). py_slice data s (e - 2)) (py_pairwise (os' @ [length data + 2])) =
            stap_units (drop ?p2 data)"
      using "1.IH" [OF lt _ refl refl refl refl] two fit r
      unfolding LENGTH_FIELD_SIZE_def by simp
    then obtain os' where o: "os = (offsets @ [pos + 2]) @ os'"
        "hd (os' @ [length data + 2]) = ?p2 + 2"
        "map (\<lambda>(s, e). py_slice data s (e - 2)) (py_pairwise (os' @ [length data + 2])) =
            stap_units (drop ?p2 data)"
      by blast
    obtain y ys where y: "os' @ [length data + 2] = y # ys"
      by (cases "os' @ [length data + 2]") auto
    with o(2) have yv: "y = ?p2 + 2" by simp
    have d: "drop pos data = data ! pos # data ! (pos + 1) # drop (pos + 2) data"
      using two by (simp add: drop_two)
    have u: "stap_units (drop pos data) =
             take (unpack_H data pos) (drop (pos + 2) data) # stap_units (drop ?p2 data)"
      by (simp add: d unpack_H_def Let_def add.commute add.left_commute)
    have pw: "py_pairwise ((pos + 2) # (os' @ [length data + 2])) =
              (pos + 2, ?p2 + 2) # py_pairwise (os' @ [length data + 2])"
      by (simp only: y py_pairwise_Cons yv)
    have "map (\<lambda>(s, e). py_slice data s (e - 2)) (py_pairwise (((pos + 2) # os') @ [length data + 2]))
          = stap_units (drop pos data)"
      using pw o(3) by (simp add: u py_slice_def)
    moreover have "os = offsets @ ((pos + 2) # os')" using o(1) by simp
    ultimately show ?thesis
      by (intro exI [of _ "(pos + 2) # os'"]) simp
  qed
qed

text \<open>
  A STAP-A payload without a defect parses into its units, each behind a start code.
\<close>

lemma parse_stap_a_units:
  assumes "2 \<le> length data" "data ! 0 AND 0x1F = 24" "stap_body_defect (drop 1 data) = None"
  shows "parse data =
         Inr (\<lparr>first_fragment = True\<rparr>,
              concat (map (\<lambda>u. start_code4 @ u) (stap_units (drop 1 data))))"
proof -
  from stap_a_offsets_defect [of 1 data "[]"] assms
  obtain os where os: "stap_a_offsets data 1 [] = Inr os" by auto
  from stap_a_offsets_units [OF _ os] assms(1)
  have m: "stap_units (drop 1 data) =
           map (\<lambda>(s, e). py_slice data s (e - 2)) (py_pairwise (os @ [length data + 2]))"
    by auto
  have "concat (map (\<lambda>(s, e). start_code4 @ py_slice data s (e - 2)) (py_pairwise (os @ [length data + 2])))
        = concat (map (\<lambda>u. start_code4 @ u) (stap_units (drop 1 data)))"
    unfolding m by (simp add: comp_def case_prod_unfold)
  with os assms show ?thesis
    by (simp add: parse_def Let_def NAL_TYPE_FU_A_def NAL_TYPE_STAP_A_def NAL_HEADER_SIZE_def
        LENGTH_FIELD_SIZE_def stap_a_output_concat)
qed

text \<open>
  Claim C10, as amended. For every payload of at least two bytes whose first byte has type
  24 and whose body has no defect (each length field fits and its declared bytes are
  there), \<open>parse\<close> succeeds with \<open>first_fragment = True\<close> and writes each aggregated unit
  behind a four-byte start code, however many units there are: one unit is accepted as
  well. The parser has no minimum of two entries.
\<close>

theorem parse_stap_a_lenient:
  assumes "2 \<le> length data" "data ! 0 AND 0x1F = 24" "stap_body_defect (drop 1 data) = None"
  shows "parse data =
         Inr (\<lparr>first_fragment = True\<rparr>,
              concat (map (\<lambda>u. start_code4 @ u) (stap_units (drop 1 data))))"
  using assms by (rule parse_stap_a_units)

text \<open>The theorem at a STAP-A payload that carries the single unit \<open>67 AA\<close>.\<close>

theorem parse_stap_a_lenient_witness:
  "parse [0x78, 0, 2, 0x67, 0xAA] =
   Inr (\<lparr>first_fragment = True\<rparr>, [0, 0, 0, 1, 0x67, 0xAA])"
  using parse_stap_a_lenient [of "[0x78, 0, 2, 0x67, 0xAA]"]
  by (simp add: start_code4_def)

text \<open>
  The claim as stated has no bound on the length. The one-byte payload \<open>18\<close> has type 24
  and an empty body, whose length fields are trivially consistent, and the parser rejects
  it at its first test, \<open>len(data) < 2\<close>.
\<close>

theorem parse_stap_a_lenient_counterexample:
  "[0x18 :: byte] ! 0 AND 0x1F = 24 \<and> stap_body_defect (drop 1 [0x18]) = None \<and>
   parse [0x18] = Inl NalTooShort"
  by (simp add: parse_def)

section \<open>The scanner is not total\<close>

lemmas scanner_defs =
  split_bitstream_def split_bitstream_from.simps skip_to_start.simps find_nal_end.simps
  py_and_def py_or_def not_start3_def not_start4_def not_zeros3_def byte_ne_def py_slice_def

text \<open>
  In \<open>H264Packer._split_bitstream\<close> a buffer of fewer than four bytes fails the test
  \<open>len(buf) >= 1 + 3\<close> in every round of \<open>while True\<close>, and nothing changes between two
  rounds: the generator neither yields nor returns.
\<close>

lemma packer_short_buffer_never_returns:
  assumes "length buf < 4"
  shows "packer_split_bitstream_from buf i = None"
proof -
  have "4 \<le> length buf" if "packer_split_bitstream_from buf i = Some y" for y
    by (rule packer_split_bitstream_from.raw_induct
          [where P = "\<lambda>buf i y. 4 \<le> length buf", OF _ that])
       (auto split: if_splits)
  with assms show ?thesis by (cases "packer_split_bitstream_from buf i") auto
qed

text \<open>
  Claim C3 says that both scanners end without an exception on every buffer, and that a
  buffer of fewer than four bytes yields no unit. The code does otherwise: on the empty
  buffer the scanner of \<open>H264Encoder\<close> raises \<open>IndexError\<close> at \<open>buf[0]\<close> and the scanner of
  \<open>H264Packer\<close> never returns; on the buffer \<open>00 00 00 01\<close>, a start code with nothing
  behind it, both raise \<open>IndexError\<close> at \<open>buf[4]\<close>.
\<close>

theorem split_bitstream_not_total:
  "split_bitstream [] = ([], Raised IndexError) \<and>
   packer_split_bitstream [] = None \<and>
   split_bitstream [0, 0, 0, 1] = ([], Raised IndexError) \<and>
   packer_split_bitstream [0, 0, 0, 1] = Some ([], Raised IndexError)"
proof (intro conjI)
  show "split_bitstream [] = ([], Raised IndexError)"
    by (simp add: scanner_defs)
  show "packer_split_bitstream [] = None"
    by (simp add: packer_split_bitstream_def packer_short_buffer_never_returns)
  show "split_bitstream [0, 0, 0, 1] = ([], Raised IndexError)"
    by (simp add: scanner_defs)
  show "packer_split_bitstream [0, 0, 0, 1] = Some ([], Raised IndexError)"
    by (simp add: packer_split_bitstream_def packer_split_bitstream_from.simps scanner_defs)
qed


lemma split_bitstream_two_example:
  "split_bitstream [0, 0, 0, 1, 0x67, 0xAA, 0, 0, 0, 1, 0x68, 0xBB] =
   ([[0x67, 0xAA], [0x68, 0xBB]], Returned)"
  by (simp add: scanner_defs)

section \<open>What the aggregator returns\<close>

text \<open>
  \<open>stap_packet agg\<close> is the STAP-A packet of the units \<open>agg\<close>: the header byte, started
  from the first unit's header and stepped over every unit, and one entry per unit.
\<close>

definition stap_packet :: "bytes list \<Rightarrow> bytes" where
  "stap_packet agg =
     foldl stap_header_step (NAL_TYPE_STAP_A OR (hd (hd agg) AND 0xE0)) agg
     # concat (map stap_entry agg)"

text \<open>
  The aggregator consumes a non-empty run \<open>agg\<close> of units from the front (the unit at hand
  and those pulled from the iterator), hands back the first unit it did not consume, and
  returns the unit at hand unchanged when the run is a single unit, the STAP-A packet of
  the run otherwise.
\<close>

lemma packetize_stap_a_spec:
  assumes "packetize_stap_a data it = Inr (packetized, nalu', it')"
  shows "\<exists>agg. agg \<noteq> [] \<and> data # it = agg @ opt_list nalu' @ it' \<and>
           (\<forall>n \<in> set agg. n \<noteq> []) \<and>
           packetized = (if length agg = 1 then data else stap_packet agg) \<and>
           (2 \<le> length agg \<longrightarrow> int (sum_list (map (\<lambda>n. 2 + length n) agg)) \<le> 1299)"
proof -
  from assms obtain d0 ds hdr' c' pl' where d: "data = d0 # ds"
    and t: "stap_a_try data it (PACKET_MAX - int STAP_A_HEADER_SIZE)
              (NAL_TYPE_STAP_A OR (d0 AND 0xE0)) 0 [] = Inr (hdr', c', pl', nalu', it')"
    and p: "packetized = (if c' \<le> 1 then data else hdr' # pl')"
    by (auto simp: packetize_stap_a_def split: list.splits sum.splits if_splits)
  from stap_a_try_spec [OF t] obtain agg where a: "c' = length agg"
    "pl' = concat (map stap_entry agg)"
    "hdr' = foldl stap_header_step (NAL_TYPE_STAP_A OR (d0 AND 0xE0)) agg"
    "\<forall>n \<in> set agg. n \<noteq> []"
    "agg \<noteq> [] \<longrightarrow> int (sum_list (map (\<lambda>n. 2 + length n) agg)) \<le> 1299"
    "if c' = 0 then it = opt_list nalu' @ it' else data # it = agg @ opt_list nalu' @ it'"
    by (auto simp: PACKET_MAX_def STAP_A_HEADER_SIZE_def NAL_HEADER_SIZE_def LENGTH_FIELD_SIZE_def)
  show ?thesis
  proof (cases "c' = 0")
    case True
    with a p d show ?thesis
      by (intro exI [of _ "[data]"]) simp
  next
    case False
    with a(1) obtain x xs where agg: "agg = x # xs" by (cases agg) auto
    with a(6) False have x: "x = data" by simp
    have "packetized = (if length agg = 1 then data else stap_packet agg)"
      using p a(1,2,3) agg x d by (auto simp: stap_packet_def)
    with a False agg show ?thesis
      by (intro exI [of _ agg]) auto
  qed
qed

lemma and_or_byte: "((h::byte) OR x) AND m = (h AND m) OR (x AND m)"
  by (rule bit.conj_disj_distrib2)

lemma stap_header_step_type: "stap_header_step h n AND 0x1F = h AND 0x1F"
  by (simp add: stap_header_step_def Let_def and_or_byte and.assoc)

lemma stap_header_step_f:
  "stap_header_step h n AND 0x80 = (h AND 0x80) OR (hd n AND 0x80)"
  by (simp add: stap_header_step_def Let_def and_or_byte and.assoc)

lemma stap_header_step_nri:
  "stap_header_step h n AND 0x60 = max (h AND 0x60) (hd n AND 0x60)"
  by (auto simp add: stap_header_step_def Let_def and_or_byte and.assoc max_def)


lemma foldl_stap_header_type:
  "foldl stap_header_step h agg AND 0x1F = h AND 0x1F"
  by (induction agg arbitrary: h) (simp_all add: stap_header_step_type)

lemma foldl_stap_header_f:
  "foldl stap_header_step h agg AND 0x80 =
   (h AND 0x80) OR foldr (\<lambda>n a. (hd n AND 0x80) OR a) agg 0"
  by (induction agg arbitrary: h) (simp_all add: stap_header_step_f or.assoc)

lemma foldl_stap_header_nri:
  "foldl stap_header_step h agg AND 0x60 =
   Max (insert (h AND 0x60) ((\<lambda>n. hd n AND 0x60) ` set agg))"
proof (induction agg arbitrary: h)
  case Nil
  show ?case by simp
next
  case (Cons n agg)
  have "Max (insert (max (h AND 0x60) (hd n AND 0x60)) ((\<lambda>n. hd n AND 0x60) ` set agg)) =
        Max (insert (h AND 0x60) (insert (hd n AND 0x60) ((\<lambda>n. hd n AND 0x60) ` set agg)))"
    by (cases "agg = []") (simp_all add: max.assoc)
  then show ?case by (simp add: Cons.IH stap_header_step_nri)
qed

lemma stap_packet_header:
  assumes "agg \<noteq> []"
  shows "hd (stap_packet agg) AND 0x1F = NAL_TYPE_STAP_A"
    and "hd (stap_packet agg) AND 0x60 = Max ((\<lambda>n. hd n AND 0x60) ` set agg)"
    and "hd (stap_packet agg) AND 0x80 = foldr (\<lambda>n a. (hd n AND 0x80) OR a) agg 0"
proof -
  from assms obtain x xs where agg: "agg = x # xs" by (cases agg) auto
  show "hd (stap_packet agg) AND 0x1F = NAL_TYPE_STAP_A"
    by (simp add: stap_packet_def foldl_stap_header_type NAL_TYPE_STAP_A_def and_or_byte and.assoc)
  have "(NAL_TYPE_STAP_A OR (hd x AND 0xE0)) AND 0x60 = hd x AND 0x60"
    by (simp add: NAL_TYPE_STAP_A_def and_or_byte and.assoc)
  then show "hd (stap_packet agg) AND 0x60 = Max ((\<lambda>n. hd n AND 0x60) ` set agg)"
    by (simp add: stap_packet_def foldl_stap_header_nri agg insert_absorb2 del: foldl_Cons)
  have "(NAL_TYPE_STAP_A OR (hd x AND 0xE0)) AND 0x80 = hd x AND 0x80"
    by (simp add: NAL_TYPE_STAP_A_def and_or_byte and.assoc)
  then show "hd (stap_packet agg) AND 0x80 = foldr (\<lambda>n a. (hd n AND 0x80) OR a) agg 0"
    by (simp add: stap_packet_def foldl_stap_header_f agg or.assoc [symmetric] del: foldl_Cons)
qed

text \<open>
  Claim C7. When the aggregator emits a STAP-A packet, that is when the units \<open>agg\<close> it
  consumed are two or more, the header byte has type 24, its NRI field (bits \<open>0x60\<close>) is
  the maximum of \<open>nalu[0] & 0x60\<close> over the aggregated units, its F bit (\<open>0x80\<close>) is the OR
  of their F bits, and the body is their entries in order.
\<close>

theorem stap_a_header_law:
  assumes "packetize_stap_a data it = Inr (packetized, nalu', it')"
    and "data # it = agg @ opt_list nalu' @ it'"
    and "2 \<le> length agg"
  shows "hd packetized AND 0x1F = NAL_TYPE_STAP_A \<and>
         hd packetized AND 0x60 = Max ((\<lambda>n. hd n AND 0x60) ` set agg) \<and>
         hd packetized AND 0x80 = foldr (\<lambda>n a. (hd n AND 0x80) OR a) agg 0 \<and>
         tl packetized = concat (map stap_entry agg)"
proof -
  from packetize_stap_a_spec [OF assms(1)] obtain agg0 where
    a: "data # it = agg0 @ opt_list nalu' @ it'"
       "packetized = (if length agg0 = 1 then data else stap_packet agg0)"
    by blast
  from a(1) assms(2) have "agg0 = agg" by simp
  with a(2) assms(3) have p: "packetized = stap_packet agg" by simp
  from assms(3) have ne: "agg \<noteq> []" by auto
  show ?thesis
    unfolding p using stap_packet_header [OF ne] by (simp add: stap_packet_def)
qed

text \<open>
  The specification's scenario 2: the units \<open>67 AA\<close> and \<open>68 BB\<close> aggregate into
  \<open>78 00 02 67 AA 00 02 68 BB\<close>.
\<close>

lemmas stap_eval =
  packetize_stap_a_def stap_a_try.simps pack_H_def PACKET_MAX_def STAP_A_HEADER_SIZE_def
  NAL_HEADER_SIZE_def LENGTH_FIELD_SIZE_def NAL_TYPE_STAP_A_def

lemma packetize_stap_a_example: "packetize_stap_a [0x67, 0xAA] [[0x68, 0xBB]] =
     Inr ([0x78, 0, 2, 0x67, 0xAA, 0, 2, 0x68, 0xBB], None, [])"
  by (simp add: stap_eval)

text \<open>The theorem at that scenario.\<close>

theorem stap_a_header_law_witness:
  "packetize_stap_a [0x67, 0xAA] [[0x68, 0xBB]] =
     Inr ([0x78, 0, 2, 0x67, 0xAA, 0, 2, 0x68, 0xBB], None, []) \<and>
   hd [0x78, 0, 2, 0x67, 0xAA, 0, 2, 0x68, 0xBB] AND 0x60 =
     Max ((\<lambda>n. hd n AND 0x60) ` set [[0x67, 0xAA], [0x68, 0xBB :: byte]]) \<and>
   hd [0x78, 0, 2, 0x67, 0xAA, 0, 2, 0x68, 0xBB] AND 0x80 =
     foldr (\<lambda>n a. (hd n AND 0x80) OR a) [[0x67, 0xAA], [0x68, 0xBB :: byte]] 0"
  using stap_a_header_law [of "[0x67, 0xAA]" "[[0x68, 0xBB]]"
      "[0x78, 0, 2, 0x67, 0xAA, 0, 2, 0x68, 0xBB]" None "[]" "[[0x67, 0xAA], [0x68, 0xBB]]"]
    packetize_stap_a_example
  by simp


section \<open>What the fragmenter returns\<close>

text \<open>
  The closed form of the fragmenter's output. With package size \<open>ps\<close> and \<open>nl\<close> larger
  packets, \<open>fu_cut ps nl j\<close> is the offset behind \<open>j\<close> packets (the first \<open>nl\<close> of them carry
  one byte more), and \<open>fu_packet data K ps nl j\<close> is packet \<open>j\<close> of \<open>K\<close>: the FU indicator,
  the FU header (end header on the last packet, start header on the first, middle header
  otherwise) and the slice between two cuts.
\<close>

definition fu_cut :: "nat \<Rightarrow> nat \<Rightarrow> nat \<Rightarrow> nat" where
  "fu_cut ps nl j = 1 + j * ps + min j nl"

definition fu_packet :: "bytes \<Rightarrow> nat \<Rightarrow> nat \<Rightarrow> nat \<Rightarrow> nat \<Rightarrow> bytes" where
  "fu_packet data K ps nl j =
     [hd data AND 0xE0 OR NAL_TYPE_FU_A,
      if Suc j = K then hd data AND 0x1F OR 0x40
      else if j = 0 then hd data AND 0x1F OR 0x80 else hd data AND 0x1F]
     @ py_slice data (fu_cut ps nl j) (fu_cut ps nl (Suc j))"

lemma fu_cut_Suc: "fu_cut ps nl (Suc j) = fu_cut ps nl j + ps + (if j < nl then 1 else 0)"
  by (auto simp: fu_cut_def min_def)

lemma fu_cut_mono: "i \<le> j \<Longrightarrow> fu_cut ps nl i \<le> fu_cut ps nl j"
  by (auto simp: fu_cut_def min_def intro: add_mono)

lemma fu_cut_strict: "0 < ps \<Longrightarrow> i < j \<Longrightarrow> fu_cut ps nl i < fu_cut ps nl j"
proof -
  assume a: "0 < ps" "i < j"
  then have "fu_cut ps nl i < fu_cut ps nl (Suc i)" by (simp add: fu_cut_Suc)
  also from a have "fu_cut ps nl (Suc i) \<le> fu_cut ps nl j" by (intro fu_cut_mono) simp
  finally show ?thesis .
qed

lemma fu_a_loop_done:
  "fu_a_loop data he hm ps nl (int (length data)) h acc = Some (Inr acc)"
  by (subst fu_a_loop.simps) simp

lemma fu_a_loop_step_larger:
  assumes "offset < length data" "0 < nl"
  shows "fu_a_loop data he hm (int ps) (int nl) (int offset) h acc =
         fu_a_loop data he hm (int ps) (int (nl - 1)) (int (offset + ps + 1)) hm
           (acc @ [(if offset + ps + 1 = length data then he else h)
                   @ py_slice data offset (offset + ps + 1)])"
proof -
  have e1: "int offset + int ps + 1 = int (offset + ps + 1)" by simp
  have e2: "int nl - 1 = int (nl - 1)" using assms(2) by simp
  show ?thesis
    using assms
    by (subst fu_a_loop.simps) (simp only: e1 e2 Let_def of_nat_less_iff of_nat_0_less_iff
        if_True nat_int of_nat_eq_iff)
qed

lemma fu_a_loop_step_base:
  assumes "offset < length data"
  shows "fu_a_loop data he hm (int ps) 0 (int offset) h acc =
         fu_a_loop data he hm (int ps) 0 (int (offset + ps)) hm
           (acc @ [(if offset + ps = length data then he else h)
                   @ py_slice data offset (offset + ps)])"
proof -
  have e1: "int offset + int ps = int (offset + ps)" by simp
  show ?thesis
    using assms
    by (subst fu_a_loop.simps) (simp only: e1 Let_def of_nat_less_iff less_irrefl
        if_True if_False nat_int of_nat_eq_iff)
qed

lemma fu_a_loop_closed:
  fixes data he hm hs :: bytes and K ps nl :: nat
  defines "pk \<equiv> \<lambda>j. (if Suc j = K then he else if j = 0 then hs else hm)
                      @ py_slice data (fu_cut ps nl j) (fu_cut ps nl (Suc j))"
  assumes len: "length data = fu_cut ps nl K" and ps: "0 < ps" and nl: "nl \<le> K"
  shows "m \<le> K \<Longrightarrow>
         fu_a_loop data he hm (int ps) (int (nl - m)) (int (fu_cut ps nl m))
           (if m = 0 then hs else hm) acc
         = Some (Inr (acc @ map pk [m..<K]))"
proof (induction "K - m" arbitrary: m acc)
  case 0
  then have "m = K" by simp
  then show ?case by (simp add: len [symmetric] fu_a_loop_done)
next
  case (Suc d)
  then have mK: "m < K" by simp
  then have lt: "fu_cut ps nl m < length data"
    unfolding len by (rule fu_cut_strict [OF ps])
  have end_iff: "(fu_cut ps nl (Suc m) = length data) = (Suc m = K)"
  proof
    assume "fu_cut ps nl (Suc m) = length data"
    then show "Suc m = K"
      using mK fu_cut_strict [OF ps, of "Suc m" K nl] len by (cases "Suc m < K") auto
  qed (simp add: len)
  have ih: "fu_a_loop data he hm (int ps) (int (nl - Suc m)) (int (fu_cut ps nl (Suc m))) hm
              (acc @ [pk m])
            = Some (Inr ((acc @ [pk m]) @ map pk [Suc m..<K]))"
    using Suc.hyps(1) [of "Suc m" "acc @ [pk m]"] Suc.hyps(2) mK by simp
  have up: "[m..<K] = m # [Suc m..<K]" using mK by (simp add: upt_conv_Cons)
  show ?case
  proof (cases "m < nl")
    case True
    then have c: "fu_cut ps nl m + ps + 1 = fu_cut ps nl (Suc m)" by (simp add: fu_cut_Suc)
    have n: "nl - m - 1 = nl - Suc m" by simp
    have "fu_a_loop data he hm (int ps) (int (nl - m)) (int (fu_cut ps nl m))
            (if m = 0 then hs else hm) acc =
          fu_a_loop data he hm (int ps) (int (nl - Suc m)) (int (fu_cut ps nl (Suc m))) hm
            (acc @ [pk m])"
      using fu_a_loop_step_larger [OF lt, of "nl - m" he hm ps "if m = 0 then hs else hm" acc] True
      unfolding c n end_iff pk_def by simp
    with ih show ?thesis by (simp add: up)
  next
    case False
    then have c: "fu_cut ps nl m + ps = fu_cut ps nl (Suc m)" by (simp add: fu_cut_Suc)
    from False have z: "nl - m = 0" "nl - Suc m = 0" by simp_all
    have "fu_a_loop data he hm (int ps) (int (nl - m)) (int (fu_cut ps nl m))
            (if m = 0 then hs else hm) acc =
          fu_a_loop data he hm (int ps) (int (nl - Suc m)) (int (fu_cut ps nl (Suc m))) hm
            (acc @ [pk m])"
      using fu_a_loop_step_base [OF lt, of he hm ps "if m = 0 then hs else hm" acc]
      unfolding c z end_iff pk_def by simp
    with ih show ?thesis by (simp add: up)
  qed
qed


lemma py_ceil_div_nat:
  "py_ceil_div (int P) 1298 = int ((P + 1297) div 1298)"
proof -
  define q where "q = (int P + 1297) div 1298"
  define r where "r = (int P + 1297) mod 1298"
  have r: "0 \<le> r" "r < 1298" by (simp_all add: r_def)
  have "int P + 1297 = 1298 * q + r" by (simp add: q_def r_def)
  then have "- int P = 1298 * (- q) + (1297 - r)" by simp
  then have "(- int P) div 1298 = - q"
    using r int_div_pos_eq [of "- int P" 1298 "- q" "1297 - r"] by simp
  then show ?thesis by (simp add: py_ceil_div_code q_def zdiv_int)
qed

lemma fu_num_packets_real:
  "nat \<lceil>real P / 1298\<rceil> = (P + 1297) div 1298"
proof -
  have "\<lceil>real P / 1298\<rceil> = py_ceil_div (int P) 1298"
    by (simp add: py_ceil_div_def)
  then show ?thesis by (simp add: py_ceil_div_nat)
qed

lemma fu_num_packets_bounds:
  fixes P :: nat
  assumes "1 \<le> P"
  shows "1 \<le> (P + 1297) div 1298" and "(P + 1297) div 1298 \<le> P"
    and "P \<le> 1298 * ((P + 1297) div 1298)"
proof -
  define q where "q = (P + 1297) div 1298"
  define r where "r = (P + 1297) mod 1298"
  have r: "r < 1298" by (simp add: r_def)
  have e: "P + 1297 = 1298 * q + r" by (simp add: q_def r_def)
  from e r assms show "1 \<le> (P + 1297) div 1298" unfolding q_def [symmetric] by arith
  from e r assms show "(P + 1297) div 1298 \<le> P" unfolding q_def [symmetric] by arith
  from e r assms show "P \<le> 1298 * ((P + 1297) div 1298)" unfolding q_def [symmetric] by arith
qed

lemma packetize_fu_a_closed:
  fixes data :: bytes
  defines "P \<equiv> length data - 1"
  defines "K \<equiv> (P + 1297) div 1298"
  assumes len: "2 \<le> length data"
  shows "packetize_fu_a data = Some (Inr (map (fu_packet data K (P div K) (P mod K)) [0..<K]))"
proof -
  from len have P1: "1 \<le> P" by (simp add: P_def)
  note Kb = fu_num_packets_bounds [OF P1, folded K_def]
  from len obtain d0 ds where d: "data = d0 # ds" by (cases data) auto
  have ps: "0 < P div K" using Kb by (simp add: div_greater_zero_iff)
  have nl: "P mod K \<le> K" using Kb by (simp add: less_imp_le)
  have cutK: "length data = fu_cut (P div K) (P mod K) K"
    using len nl by (simp add: fu_cut_def P_def [symmetric] min_absorb2) (simp add: P_def)
  have psz: "int (length data) - int NAL_HEADER_SIZE = int P"
    using len by (simp add: P_def NAL_HEADER_SIZE_def)
  have np: "py_ceil_div (int P) (PACKET_MAX - int FU_A_HEADER_SIZE) = int K"
    by (simp add: PACKET_MAX_def FU_A_HEADER_SIZE_def py_ceil_div_nat K_def)
  have K0: "int K \<noteq> 0" using Kb by simp
  have pk: "(\<lambda>j. (if Suc j = K then [d0 AND 0xE0 OR NAL_TYPE_FU_A, d0 AND 0x1F OR 0x40]
                  else if j = 0 then [d0 AND 0xE0 OR NAL_TYPE_FU_A, d0 AND 0x1F OR 0x80]
                  else [d0 AND 0xE0 OR NAL_TYPE_FU_A, d0 AND 0x1F])
                 @ py_slice data (fu_cut (P div K) (P mod K) j)
                     (fu_cut (P div K) (P mod K) (Suc j)))
            = fu_packet data K (P div K) (P mod K)"
    by (rule ext) (simp add: fu_packet_def d)
  have one: "int NAL_HEADER_SIZE = int (fu_cut (P div K) (P mod K) 0)"
    by (simp add: fu_cut_def NAL_HEADER_SIZE_def)
  have loop: "fu_a_loop data [d0 AND 0xE0 OR NAL_TYPE_FU_A, d0 AND 0x1F OR 0x40]
                [d0 AND 0xE0 OR NAL_TYPE_FU_A, d0 AND 0x1F]
                (int (P div K)) (int (P mod K)) (int NAL_HEADER_SIZE)
                [d0 AND 0xE0 OR NAL_TYPE_FU_A, d0 AND 0x1F OR 0x80] []
              = Some (Inr (map (fu_packet data K (P div K) (P mod K)) [0..<K]))"
    unfolding one
    using fu_a_loop_closed [OF cutK ps nl, where m = 0 and acc = "[]"
        and he = "[d0 AND 0xE0 OR NAL_TYPE_FU_A, d0 AND 0x1F OR 0x40]"
        and hs = "[d0 AND 0xE0 OR NAL_TYPE_FU_A, d0 AND 0x1F OR 0x80]"
        and hm = "[d0 AND 0xE0 OR NAL_TYPE_FU_A, d0 AND 0x1F]", unfolded pk]
    by (simp only: minus_nat.diff_0 if_True append_Nil le0 simp_thms)
  have i1: "int P div int K = int (P div K)" and i2: "int P mod int K = int (P mod K)"
    by (rule zdiv_int [symmetric], rule zmod_int [symmetric])
  have psz': "int (length (d0 # ds)) - int NAL_HEADER_SIZE = int P"
    using psz by (simp only: d)
  have "packetize_fu_a (d0 # ds) =
        fu_a_loop (d0 # ds) [d0 AND 0xE0 OR NAL_TYPE_FU_A, d0 AND 0x1F OR 0x40]
                [d0 AND 0xE0 OR NAL_TYPE_FU_A, d0 AND 0x1F]
                (int (P div K)) (int (P mod K)) (int NAL_HEADER_SIZE)
                [d0 AND 0xE0 OR NAL_TYPE_FU_A, d0 AND 0x1F OR 0x80] []"
    unfolding packetize_fu_a_def psz' np Let_def list.case i1 i2
    using K0 by simp
  then show ?thesis
    using loop by (simp only: d)
qed


lemma py_slice_append:
  assumes "a \<le> b" "b \<le> c"
  shows "py_slice xs a b @ py_slice xs b c = py_slice xs a c"
proof -
  have "take ((b - a) + (c - b)) (drop a xs) =
        take (b - a) (drop a xs) @ take (c - b) (drop (b - a) (drop a xs))"
    by (rule take_add)
  moreover have "drop (b - a) (drop a xs) = drop b xs" using assms(1) by simp
  moreover have "(b - a) + (c - b) = c - a" using assms by simp
  ultimately show ?thesis by (simp add: py_slice_def)
qed

lemma py_slice_telescope:
  assumes "\<And>j. j < K \<Longrightarrow> c j \<le> c (Suc j)"
  shows "concat (map (\<lambda>j. py_slice xs (c j) (c (Suc j))) [0..<K]) = py_slice xs (c 0) (c K)"
  using assms
proof (induction K)
  case 0
  show ?case by (simp add: py_slice_def)
next
  case (Suc K)
  have mono: "c 0 \<le> c K"
    using Suc.prems by (induction K) (auto intro: order_trans simp: less_Suc_eq)
  have step: "c K \<le> c (Suc K)" using Suc.prems by simp
  from Suc show ?case by (simp add: py_slice_append [OF mono step])
qed

lemma fu_packet_length:
  assumes "length data = fu_cut ps nl K" "j < K"
  shows "length (fu_packet data K ps nl j) = 2 + ps + (if j < nl then 1 else 0)"
proof -
  have "fu_cut ps nl (Suc j) \<le> length data"
    unfolding assms(1) using assms(2) by (intro fu_cut_mono) simp
  then show ?thesis
    by (simp add: fu_packet_def py_slice_def fu_cut_Suc)
qed

lemma fu_packets_concat:
  assumes "length data = fu_cut ps nl K"
  shows "concat (map (drop 2) (map (fu_packet data K ps nl) [0..<K])) = drop 1 data"
proof -
  have "concat (map (drop 2) (map (fu_packet data K ps nl) [0..<K])) =
        concat (map (\<lambda>j. py_slice data (fu_cut ps nl j) (fu_cut ps nl (Suc j))) [0..<K])"
    by (simp add: fu_packet_def comp_def)
  also have "\<dots> = py_slice data (fu_cut ps nl 0) (fu_cut ps nl K)"
    by (rule py_slice_telescope) (simp add: fu_cut_mono)
  also have "\<dots> = py_slice data 1 (length data)"
    unfolding assms by (simp add: fu_cut_def)
  also have "\<dots> = drop 1 data"
    by (simp add: py_slice_def)
  finally show ?thesis .
qed

lemma fu_header_bits:
  fixes x :: byte
  shows "(x AND 0x1F OR 0x40) AND 0x1F = x AND 0x1F"
    and "(x AND 0x1F OR 0x80) AND 0x1F = x AND 0x1F"
    and "(x AND 0x1F OR 0x40) AND 0x80 = 0"
    and "(x AND 0x1F OR 0x80) AND 0x80 = 0x80"
    and "(x AND 0x1F) AND 0x80 = 0"
    and "(x AND 0x1F OR 0x40) AND 0x40 = 0x40"
    and "(x AND 0x1F OR 0x80) AND 0x40 = 0"
    and "(x AND 0x1F) AND 0x40 = 0"
  by (simp_all add: and_or_byte and.assoc)

text \<open>
  On a unit longer than \<open>PACKET_MAX\<close> the fragmenter returns, and its packets are the
  closed form with \<open>K = ceil(P / 1298)\<close> packets for the \<open>P = len(data) - 1\<close> payload bytes.
\<close>

lemma packetize_fu_a_large:
  fixes N :: bytes
  defines "P \<equiv> length N - 1"
  defines "K \<equiv> (P + 1297) div 1298"
  assumes "int (length N) > PACKET_MAX"
  shows "packetize_fu_a N = Some (Inr (map (fu_packet N K (P div K) (P mod K)) [0..<K]))"
    and "2 \<le> K" and "0 < P div K" and "P mod K < K"
    and "length N = fu_cut (P div K) (P mod K) K"
    and "P div K + (if 0 < P mod K then 1 else 0) \<le> 1298"
proof -
  from assms(3) have len: "1301 \<le> length N" by (simp add: PACKET_MAX_def)
  then have P: "1300 \<le> P" by (simp add: P_def)
  then have P1: "1 \<le> P" by simp
  note Kb = fu_num_packets_bounds [OF P1, folded K_def]
  show "packetize_fu_a N = Some (Inr (map (fu_packet N K (P div K) (P mod K)) [0..<K]))"
    unfolding P_def K_def using len by (intro packetize_fu_a_closed) simp
  have "(2596::nat) div 1298 \<le> (P + 1297) div 1298"
    using P by (intro div_le_mono) simp
  then show K2: "2 \<le> K" by (simp add: K_def)
  show "0 < P div K" using Kb by (simp add: div_greater_zero_iff)
  show m: "P mod K < K" using Kb by simp
  show "length N = fu_cut (P div K) (P mod K) K"
    using len m by (simp add: fu_cut_def min_absorb2 less_imp_le) (simp add: P_def)
  show "P div K + (if 0 < P mod K then 1 else 0) \<le> 1298"
  proof (cases "P mod K = 0")
    case True
    then have "K * (P div K) = P" by auto
    with Kb(3) have "K * (P div K) \<le> K * 1298" by (simp only: mult.commute [of K 1298])
    then have "P div K \<le> 1298" using Kb(1) by simp
    then show ?thesis using True by simp
  next
    case False
    have e: "K * (P div K) + P mod K = P" by simp
    from False e have "K * (P div K) < P" by linarith
    with Kb(3) have "K * (P div K) < K * 1298" by (simp only: mult.commute [of K 1298])
    then have "P div K < 1298" by simp
    then show ?thesis using False by simp
  qed
qed


text \<open>
  Claim C4. For every unit \<open>N\<close> longer than \<open>PACKET_MAX\<close> the fragmenter returns a list of
  at least two packets whose payload tails (the bytes behind the two header bytes)
  concatenate to \<open>N[1:]\<close>. Every packet has the FU indicator \<open>(N[0] & 0xE0) | 28\<close> and the
  type of \<open>N\<close> in its FU header; the S bit (\<open>0x80\<close>) is set in the first packet only and
  the E bit (\<open>0x40\<close>) in the last packet only, so the middle packets have both clear and
  no packet has both set.
\<close>

theorem fu_a_fragment_law:
  assumes "int (length N) > PACKET_MAX"
  shows "\<exists>packets. packetize_fu_a N = Some (Inr packets) \<and>
           2 \<le> length packets \<and>
           concat (map (drop 2) packets) = drop 1 N \<and>
           (\<forall>j < length packets.
              2 < length (packets ! j) \<and>
              packets ! j ! 0 = N ! 0 AND 0xE0 OR NAL_TYPE_FU_A \<and>
              packets ! j ! 1 AND 0x1F = N ! 0 AND 0x1F \<and>
              ((packets ! j ! 1 AND 0x80 \<noteq> 0) = (j = 0)) \<and>
              ((packets ! j ! 1 AND 0x40 \<noteq> 0) = (Suc j = length packets)))"
proof -
  define P where "P = length N - 1"
  define K where "K = (P + 1297) div 1298"
  note f = packetize_fu_a_large [OF assms, folded P_def, folded K_def]
  let ?packets = "map (fu_packet N K (P div K) (P mod K)) [0..<K]"
  from assms have "N \<noteq> []" by (auto simp: PACKET_MAX_def)
  then have hd: "hd N = N ! 0" by (simp add: hd_conv_nth)
  have "concat (map (drop 2) ?packets) = drop 1 N"
    by (rule fu_packets_concat [OF f(5)])
  moreover have "2 < length (?packets ! j) \<and>
              ?packets ! j ! 0 = N ! 0 AND 0xE0 OR NAL_TYPE_FU_A \<and>
              ?packets ! j ! 1 AND 0x1F = N ! 0 AND 0x1F \<and>
              ((?packets ! j ! 1 AND 0x80 \<noteq> 0) = (j = 0)) \<and>
              ((?packets ! j ! 1 AND 0x40 \<noteq> 0) = (Suc j = length ?packets))"
    if "j < length ?packets" for j
  proof -
    from that have j: "j < K" by simp
    then have nth: "?packets ! j = fu_packet N K (P div K) (P mod K) j" by simp
    have "length (fu_packet N K (P div K) (P mod K) j) = 2 + P div K + (if j < P mod K then 1 else 0)"
      by (rule fu_packet_length [OF f(5) j])
    with f(3) have "2 < length (?packets ! j)" unfolding nth by simp
    moreover have "?packets ! j ! 0 = N ! 0 AND 0xE0 OR NAL_TYPE_FU_A"
      unfolding nth by (simp add: fu_packet_def hd)
    moreover have "?packets ! j ! 1 AND 0x1F = N ! 0 AND 0x1F"
      unfolding nth by (simp add: fu_packet_def hd fu_header_bits)
    moreover have "(?packets ! j ! 1 AND 0x80 \<noteq> 0) = (j = 0)"
      unfolding nth using f(2) by (auto simp add: fu_packet_def hd fu_header_bits)
    moreover have "(?packets ! j ! 1 AND 0x40 \<noteq> 0) = (Suc j = length ?packets)"
      unfolding nth by (simp add: fu_packet_def hd fu_header_bits)
    ultimately show ?thesis by blast
  qed
  ultimately show ?thesis
    using f(1) f(2) by (intro exI [of _ ?packets]) simp
qed

text \<open>
  Claim C5. For every unit \<open>N\<close> longer than \<open>PACKET_MAX\<close>, with \<open>payload_size = len(N) - 1\<close>
  and \<open>available = 1298\<close>, the fragmenter emits exactly
  \<open>num_packets = ceil(payload_size / available)\<close> packets; the first
  \<open>payload_size mod num_packets\<close> of them carry \<open>payload_size div num_packets + 1\<close> payload
  bytes and the others \<open>payload_size div num_packets\<close>.
\<close>

theorem fu_a_sizing:
  assumes "int (length N) > PACKET_MAX"
  shows "\<exists>packets. packetize_fu_a N = Some (Inr packets) \<and>
           length packets = nat \<lceil>real (length N - 1) / 1298\<rceil> \<and>
           (\<forall>j < length packets.
              length (drop 2 (packets ! j)) =
                (if j < (length N - 1) mod length packets
                 then (length N - 1) div length packets + 1
                 else (length N - 1) div length packets))"
proof -
  define P where "P = length N - 1"
  define K where "K = (P + 1297) div 1298"
  note f = packetize_fu_a_large [OF assms, folded P_def, folded K_def]
  let ?packets = "map (fu_packet N K (P div K) (P mod K)) [0..<K]"
  have K: "nat \<lceil>real P / 1298\<rceil> = K"
    unfolding K_def by (rule fu_num_packets_real)
  have "length (drop 2 (?packets ! j)) = (if j < P mod K then P div K + 1 else P div K)"
    if "j < K" for j
    using fu_packet_length [OF f(5) that] that by simp
  then show ?thesis
    using f(1) K unfolding P_def [symmetric]
    by (intro exI [of _ ?packets]) simp
qed


text \<open>
  The theorem at the specification's scenario 3, a unit of type 5 with NRI bits \<open>0x60\<close>
  and 3000 bytes: the indicator is \<open>7C\<close> and the first FU header has S set and E clear.
\<close>

theorem fu_a_fragment_law_witness:
  "int (length (0x65 # replicate 2999 (0 :: byte))) > PACKET_MAX \<and>
   (\<exists>packets. packetize_fu_a (0x65 # replicate 2999 0) = Some (Inr packets) \<and>
      2 \<le> length packets \<and>
      concat (map (drop 2) packets) = replicate 2999 0 \<and>
      packets ! 0 ! 0 = 0x7C \<and>
      packets ! 0 ! 1 AND 0x1F = 5 \<and>
      packets ! 0 ! 1 AND 0x80 \<noteq> 0 \<and>
      packets ! 0 ! 1 AND 0x40 = 0)"
proof -
  have h: "int (length (0x65 # replicate 2999 (0 :: byte))) > PACKET_MAX"
    by (simp add: PACKET_MAX_def)
  from fu_a_fragment_law [OF h] obtain packets where
    p: "packetize_fu_a (0x65 # replicate 2999 0) = Some (Inr packets)"
       "2 \<le> length packets"
       "concat (map (drop 2) packets) = drop 1 (0x65 # replicate 2999 0)"
    and q: "\<forall>j < length packets.
              2 < length (packets ! j) \<and>
              packets ! j ! 0 = (0x65 # replicate 2999 0) ! 0 AND 0xE0 OR NAL_TYPE_FU_A \<and>
              packets ! j ! 1 AND 0x1F = (0x65 # replicate 2999 0) ! 0 AND 0x1F \<and>
              ((packets ! j ! 1 AND 0x80 \<noteq> 0) = (j = 0)) \<and>
              ((packets ! j ! 1 AND 0x40 \<noteq> 0) = (Suc j = length packets))"
    by blast
  from p(2) have "0 < length packets" by linarith
  with q have "packets ! 0 ! 0 = (0x65 # replicate 2999 0) ! 0 AND 0xE0 OR NAL_TYPE_FU_A"
    "packets ! 0 ! 1 AND 0x1F = (0x65 # replicate 2999 0) ! 0 AND 0x1F"
    "packets ! 0 ! 1 AND 0x80 \<noteq> 0"
    "(packets ! 0 ! 1 AND 0x40 \<noteq> 0) = (Suc 0 = length packets)"
    by blast+
  with p h show ?thesis
    by (intro conjI exI [of _ packets]) (simp_all add: NAL_TYPE_FU_A_def)
qed

text \<open>
  The theorem at the same unit: three packets that carry 1000, 1000 and 999 bytes.
\<close>

theorem fu_a_sizing_witness:
  "int (length (0x65 # replicate 2999 (0 :: byte))) > PACKET_MAX \<and>
   (\<exists>packets. packetize_fu_a (0x65 # replicate 2999 0) = Some (Inr packets) \<and>
      length packets = 3 \<and>
      length (drop 2 (packets ! 0)) = 1000 \<and>
      length (drop 2 (packets ! 1)) = 1000 \<and>
      length (drop 2 (packets ! 2)) = 999)"
proof -
  have h: "int (length (0x65 # replicate 2999 (0 :: byte))) > PACKET_MAX"
    by (simp add: PACKET_MAX_def)
  have c: "nat \<lceil>real (length (0x65 # replicate 2999 (0 :: byte)) - 1) / 1298\<rceil> = 3"
    by (simp add: fu_num_packets_real)
  from fu_a_sizing [OF h] obtain packets where
    p: "packetize_fu_a (0x65 # replicate 2999 0) = Some (Inr packets)"
       "length packets = 3"
    and q: "\<forall>j < length packets.
              length (drop 2 (packets ! j)) =
                (if j < (length (0x65 # replicate 2999 (0 :: byte)) - 1) mod length packets
                 then (length (0x65 # replicate 2999 (0 :: byte)) - 1) div length packets + 1
                 else (length (0x65 # replicate 2999 (0 :: byte)) - 1) div length packets)"
    unfolding c by blast
  from q p(2) have "length (drop 2 (packets ! 0)) = 1000"
    "length (drop 2 (packets ! 1)) = 1000" "length (drop 2 (packets ! 2)) = 999"
    by simp_all
  with p h show ?thesis
    by (intro conjI exI [of _ packets]) simp_all
qed

section \<open>What the driver returns\<close>

lemma stap_a_try_exhausted:
  "stap_a_try nalu it av hdr c pl = Inr (hdr', c', pl', None, it') \<Longrightarrow> it' = []"
proof (induction it arbitrary: nalu av hdr c pl)
  case Nil
  then show ?case
    by (subst (asm) stap_a_try.simps)
       (auto simp: Let_def split: if_splits list.splits sum.splits)
next
  case (Cons n it1)
  from Cons.prems show ?case
    by (subst (asm) stap_a_try.simps)
       (auto simp: Let_def split: if_splits list.splits sum.splits dest: Cons.IH)
qed

lemma stap_a_try_succeeds:
  "av \<le> 65535 \<Longrightarrow> nalu \<noteq> [] \<Longrightarrow> \<forall>n \<in> set it. n \<noteq> [] \<Longrightarrow>
   \<exists>r. stap_a_try nalu it av hdr c pl = Inr r"
proof (induction nalu it av hdr c pl rule: stap_a_try.induct)
  case (1 nalu it av hdr c pl)
  show ?case
  proof (cases "int (length nalu) \<le> av")
    case False
    then show ?thesis
      by (subst stap_a_try.simps) (auto split: list.splits)
  next
    case fit: True
    from "1.prems"(2) obtain b bs where Cons: "nalu = b # bs" by (cases nalu) auto
    from fit "1.prems"(1) have small: "\<not> length nalu > 65535" by simp
    then have pk: "pack_H (length nalu) =
        Inr [word_of_nat (length nalu div 256), word_of_nat (length nalu mod 256)]"
      by (simp add: pack_H_def)
    show ?thesis
    proof (cases it)
      case Nil
      with fit Cons pk show ?thesis
        by (subst stap_a_try.simps) (simp add: Let_def)
    next
      case it: (Cons n it1)
      note ih = "1.IH" [OF fit Cons refl refl refl refl refl pk it]
      have "\<exists>r. stap_a_try n it1 (av - int (LENGTH_FIELD_SIZE + length nalu))
               (if (hdr OR b AND 0x80) AND 0x60 < b AND 0x60
                then (hdr OR b AND 0x80) AND 0x9F OR b AND 0x60 else hdr OR b AND 0x80)
               (c + 1)
               (pl @ [word_of_nat (length nalu div 256), word_of_nat (length nalu mod 256)] @ nalu)
             = Inr r"
        using "1.prems" it by (intro ih) auto
      then show ?thesis
        using fit Cons pk it
        by (subst stap_a_try.simps) (simp add: Let_def)
    qed
  qed
qed

lemma packetize_stap_a_succeeds:
  assumes "data \<noteq> []" "\<forall>n \<in> set it. n \<noteq> []"
  shows "\<exists>r. packetize_stap_a data it = Inr r"
proof -
  from assms(1) obtain d0 ds where d: "data = d0 # ds" by (cases data) auto
  have "\<exists>r. stap_a_try data it (PACKET_MAX - int STAP_A_HEADER_SIZE)
              (NAL_TYPE_STAP_A OR (d0 AND 0xE0)) 0 [] = Inr r"
    using assms by (intro stap_a_try_succeeds) (simp_all add: PACKET_MAX_def)
  then show ?thesis
    by (auto simp: packetize_stap_a_def d split: prod.splits)
qed

lemma packetize_stap_a_exhausted:
  assumes "packetize_stap_a data it = Inr (packetized, None, it')"
  shows "it' = []"
  using assms
  by (auto simp: packetize_stap_a_def split: list.splits sum.splits if_splits
      dest: stap_a_try_exhausted)


text \<open>
  The driver's output, group by group. The driver cuts the sequence of units into
  consecutive non-empty groups, one per round of its loop: \<open>fu_packets N\<close> are the FU-A
  packets of a unit above the limit, and \<open>emit_group g\<close> is what the round on group \<open>g\<close>
  appends. \<open>group_ok g\<close>: the group is not empty, none of its units is empty, and a group
  of several units has at most 1299 bytes of entries.
\<close>

definition fu_packets :: "bytes \<Rightarrow> bytes list" where
  "fu_packets N =
     (let P = length N - 1; K = (P + 1297) div 1298
      in map (fu_packet N K (P div K) (P mod K)) [0..<K])"

definition emit_group :: "bytes list \<Rightarrow> bytes list" where
  "emit_group g =
     (if length g = 1 then
        (if int (length (hd g)) > PACKET_MAX then fu_packets (hd g) else [hd g])
      else [stap_packet g])"

definition group_ok :: "bytes list \<Rightarrow> bool" where
  "group_ok g \<longleftrightarrow>
     g \<noteq> [] \<and> [] \<notin> set g \<and>
     (length g = 1 \<or> int (sum_list (map (\<lambda>n. 2 + length n) g)) \<le> 1299)"

lemma packetize_fu_a_fu_packets:
  "int (length N) > PACKET_MAX \<Longrightarrow> packetize_fu_a N = Some (Inr (fu_packets N))"
  by (simp add: packetize_fu_a_large(1) fu_packets_def Let_def)

lemma packetize_loop_None: "packetize_loop None it acc = Some (Inr acc)"
  by (simp add: packetize_loop.simps)

lemma packetize_loop_fu:
  "int (length p) > PACKET_MAX \<Longrightarrow>
   packetize_loop (Some p) it acc =
   packetize_loop (fst (py_next it)) (snd (py_next it)) (acc @ fu_packets p)"
  by (subst packetize_loop.simps) (simp add: packetize_fu_a_fu_packets)

lemma packetize_loop_stap:
  "\<not> int (length p) > PACKET_MAX \<Longrightarrow>
   packetize_stap_a p it = Inr (packetized, package1, it1) \<Longrightarrow>
   packetize_loop (Some p) it acc = packetize_loop package1 it1 (acc @ [packetized])"
  by (subst packetize_loop.simps) simp

lemma packetize_loop_stap_error:
  "\<not> int (length p) > PACKET_MAX \<Longrightarrow> packetize_stap_a p it = Inl e \<Longrightarrow>
   packetize_loop (Some p) it acc = Some (Inl e)"
  by (subst packetize_loop.simps) simp

lemma py_next_concat: "opt_list (fst (py_next it)) @ snd (py_next it) = it"
  by (cases it) auto

lemma py_next_None: "fst (py_next it) = None \<Longrightarrow> snd (py_next it) = []"
  by (cases it) auto

lemma packetize_loop_groups:
  "packetize_loop package it acc = Some (Inr pkts) \<Longrightarrow> (package = None \<longrightarrow> it = []) \<Longrightarrow>
   \<exists>groups. concat groups = opt_list package @ it \<and> (\<forall>g \<in> set groups. group_ok g) \<and>
            pkts = acc @ concat (map emit_group groups)"
proof (induction "length (opt_list package) + length it" arbitrary: package it acc
    rule: less_induct)
  case less
  show ?case
  proof (cases package)
    case None
    with less.prems show ?thesis
      by (intro exI [of _ "[]"]) (simp add: packetize_loop_None)
  next
    case (Some p)
    show ?thesis
    proof (cases "int (length p) > PACKET_MAX")
      case True
      let ?pk = "fst (py_next it)" and ?it = "snd (py_next it)"
      from less.prems(1) have r: "packetize_loop ?pk ?it (acc @ fu_packets p) = Some (Inr pkts)"
        by (simp add: Some packetize_loop_fu [OF True])
      have "length (opt_list ?pk) + length ?it < length (opt_list package) + length it"
        by (simp add: Some)
      from less.hyps [OF this r] py_next_None [of it]
      obtain groups where g: "concat groups = opt_list ?pk @ ?it"
        "\<forall>g \<in> set groups. group_ok g"
        "pkts = (acc @ fu_packets p) @ concat (map emit_group groups)"
        by blast
      from True have pne: "p \<noteq> []" by (auto simp: PACKET_MAX_def)
      have "group_ok [p]" using pne by (simp add: group_ok_def)
      moreover have "emit_group [p] = fu_packets p" using True by (simp add: emit_group_def)
      ultimately show ?thesis
        using g by (intro exI [of _ "[p] # groups"]) (simp add: Some py_next_concat)
    next
      case False
      from less.prems(1) obtain packetized package1 it1 where
        st: "packetize_stap_a p it = Inr (packetized, package1, it1)"
        by (cases "packetize_stap_a p it")
           (auto simp: Some packetize_loop_stap_error [OF False])
      from less.prems(1) have r: "packetize_loop package1 it1 (acc @ [packetized]) = Some (Inr pkts)"
        by (simp add: Some packetize_loop_stap [OF False st])
      from packetize_stap_a_spec [OF st] obtain agg where a: "agg \<noteq> []"
        "p # it = agg @ opt_list package1 @ it1" "\<forall>n \<in> set agg. n \<noteq> []"
        "packetized = (if length agg = 1 then p else stap_packet agg)"
        "2 \<le> length agg \<longrightarrow> int (sum_list (map (\<lambda>n. 2 + length n) agg)) \<le> 1299"
        by blast
      have "length (p # it) = length agg + length (opt_list package1) + length it1"
        unfolding a(2) by simp
      with a(1) have "length (opt_list package1) + length it1 < length (opt_list package) + length it"
        by (cases agg) (auto simp: Some)
      moreover have "package1 = None \<longrightarrow> it1 = []"
        using st by (auto dest: packetize_stap_a_exhausted)
      ultimately obtain groups where g: "concat groups = opt_list package1 @ it1"
        "\<forall>g \<in> set groups. group_ok g"
        "pkts = (acc @ [packetized]) @ concat (map emit_group groups)"
        using less.hyps [OF _ r] by blast
      from a(1,2) have hd: "hd agg = p" by (cases agg) auto
      from a(1) have "0 < length agg" by simp
      then have "length agg = 1 \<or> 2 \<le> length agg" by linarith
      then have "group_ok agg"
        using a by (auto simp: group_ok_def)
      moreover have "emit_group agg = [packetized]"
        using a(4) False hd by (simp add: emit_group_def)
      ultimately show ?thesis
        using g a(2) by (intro exI [of _ "agg # groups"]) (simp add: Some)
    qed
  qed
qed


lemma packetize_groups:
  assumes "packetize nals = Some (Inr pkts)"
  shows "\<exists>groups. concat groups = nals \<and> (\<forall>g \<in> set groups. group_ok g) \<and>
           pkts = concat (map emit_group groups)"
  using packetize_loop_groups [of "fst (py_next nals)" "snd (py_next nals)" "[]" pkts]
    assms py_next_None [of nals]
  by (simp add: packetize_def py_next_concat)

lemma fu_packets_length:
  assumes "int (length N) > PACKET_MAX" "p \<in> set (fu_packets N)"
  shows "int (length p) \<le> PACKET_MAX"
proof -
  define P where "P = length N - 1"
  define K where "K = (P + 1297) div 1298"
  note f = packetize_fu_a_large [OF assms(1), folded P_def, folded K_def]
  have "fu_packets N = map (fu_packet N K (P div K) (P mod K)) [0..<K]"
    unfolding fu_packets_def Let_def P_def K_def ..
  with assms(2) obtain j where j: "j < K" "p = fu_packet N K (P div K) (P mod K) j"
    by auto
  have "length p = 2 + P div K + (if j < P mod K then 1 else 0)"
    unfolding j(2) by (rule fu_packet_length [OF f(5) j(1)])
  with f(6) show ?thesis by (auto simp: PACKET_MAX_def split: if_splits)
qed

lemma length_stap_packet:
  "length (stap_packet g) = 1 + sum_list (map (\<lambda>n. 2 + length n) g)"
  by (simp add: stap_packet_def length_concat comp_def stap_entry_def)

lemma emit_group_length:
  assumes "group_ok g" "p \<in> set (emit_group g)"
  shows "int (length p) \<le> PACKET_MAX"
proof (cases "length g = 1")
  case True
  with assms show ?thesis
    by (auto simp: emit_group_def fu_packets_length split: if_splits)
next
  case False
  with assms have "p = stap_packet g" "int (sum_list (map (\<lambda>n. 2 + length n) g)) \<le> 1299"
    by (auto simp: emit_group_def group_ok_def)
  then show ?thesis by (simp add: length_stap_packet PACKET_MAX_def)
qed

lemma packetize_loop_returns:
  "\<exists>r. packetize_loop package it acc = Some r"
proof (induction "length (opt_list package) + length it" arbitrary: package it acc
    rule: less_induct)
  case less
  show ?case
  proof (cases package)
    case None
    then show ?thesis by (simp add: packetize_loop_None)
  next
    case (Some p)
    show ?thesis
    proof (cases "int (length p) > PACKET_MAX")
      case True
      have "length (opt_list (fst (py_next it))) + length (snd (py_next it))
            < length (opt_list package) + length it"
        by (simp add: Some)
      from less.hyps [OF this] show ?thesis
        by (simp add: Some packetize_loop_fu [OF True])
    next
      case False
      show ?thesis
      proof (cases "packetize_stap_a p it")
        case (Inl e)
        then show ?thesis by (simp add: Some packetize_loop_stap_error [OF False])
      next
        case (Inr r)
        then obtain packetized package1 it1 where
          st: "packetize_stap_a p it = Inr (packetized, package1, it1)"
          by (cases r) auto
        from packetize_stap_a_consumes [OF st]
        have "length (opt_list package1) + length it1 < length (opt_list package) + length it"
          by (simp add: Some)
        from less.hyps [OF this] show ?thesis
          by (simp add: Some packetize_loop_stap [OF False st])
      qed
    qed
  qed
qed

lemma packetize_loop_succeeds:
  "[] \<notin> set (opt_list package @ it) \<Longrightarrow>
   \<exists>pkts. packetize_loop package it acc = Some (Inr pkts)"
proof (induction "length (opt_list package) + length it" arbitrary: package it acc
    rule: less_induct)
  case less
  show ?case
  proof (cases package)
    case None
    then show ?thesis by (simp add: packetize_loop_None)
  next
    case (Some p)
    show ?thesis
    proof (cases "int (length p) > PACKET_MAX")
      case True
      have "length (opt_list (fst (py_next it))) + length (snd (py_next it))
            < length (opt_list package) + length it"
        by (simp add: Some)
      moreover have "[] \<notin> set (opt_list (fst (py_next it)) @ snd (py_next it))"
        using less.prems by (simp add: py_next_concat Some)
      ultimately show ?thesis
        using less.hyps by (simp add: Some packetize_loop_fu [OF True])
    next
      case False
      from less.prems have "p \<noteq> []" "\<forall>n \<in> set it. n \<noteq> []"
        by (auto simp: Some)
      from packetize_stap_a_succeeds [OF this] obtain packetized package1 it1 where
        st: "packetize_stap_a p it = Inr (packetized, package1, it1)"
        by (metis prod_cases3)
      from packetize_stap_a_consumes [OF st]
      have "length (opt_list package1) + length it1 < length (opt_list package) + length it"
        by (simp add: Some)
      moreover from packetize_stap_a_spec [OF st] obtain agg where
        "p # it = agg @ opt_list package1 @ it1" by blast
      then have "set (opt_list package1 @ it1) \<subseteq> set (p # it)"
        by (metis set_append sup_ge2)
      with less.prems have "[] \<notin> set (opt_list package1 @ it1)"
        by (auto simp: Some)
      ultimately show ?thesis
        using less.hyps by (simp add: Some packetize_loop_stap [OF False st])
    qed
  qed
qed

text \<open>
  Claim C2. On every finite sequence of units the driver ends (it never runs forever),
  it returns a list of payloads whenever no unit is empty (an empty unit makes
  \<open>data[0]\<close> or \<open>nalu[0]\<close> raise \<open>IndexError\<close>), and every payload of a returned list, single unit,
  STAP-A or FU-A, has at most \<open>PACKET_MAX = 1300\<close> bytes.
\<close>

theorem packet_size_bound:
  "(\<exists>r. packetize nals = Some r) \<and>
   ([] \<notin> set nals \<longrightarrow> (\<exists>pkts. packetize nals = Some (Inr pkts))) \<and>
   (\<forall>pkts p. packetize nals = Some (Inr pkts) \<and> p \<in> set pkts \<longrightarrow>
      int (length p) \<le> PACKET_MAX)"
proof (intro conjI allI impI)
  show "\<exists>r. packetize nals = Some r"
    unfolding packetize_def by (rule packetize_loop_returns)
  show "\<exists>pkts. packetize nals = Some (Inr pkts)" if "[] \<notin> set nals"
    unfolding packetize_def using that
    by (intro packetize_loop_succeeds) (simp add: py_next_concat)
  show "int (length p) \<le> PACKET_MAX"
    if "packetize nals = Some (Inr pkts) \<and> p \<in> set pkts" for pkts p
  proof -
    from that packetize_groups [of nals pkts] obtain groups where
      g: "\<forall>g \<in> set groups. group_ok g" "pkts = concat (map emit_group groups)"
      by blast
    from that g(2) obtain gr where "gr \<in> set groups" "p \<in> set (emit_group gr)"
      by auto
    with g(1) show ?thesis by (auto intro: emit_group_length)
  qed
qed

text \<open>The specification's scenarios 1 and 2, evaluated on the model.\<close>

lemmas packetize_eval =
  packetize_def packetize_loop.simps stap_eval

lemma packetize_example:
  "packetize [[0x67, 0xAA], [0x68, 0xBB]] =
   Some (Inr [[0x78, 0, 2, 0x67, 0xAA, 0, 2, 0x68, 0xBB]])"
  by (simp add: packetize_eval)


text \<open>The theorem at scenario 2, whose single payload has nine bytes.\<close>

theorem packet_size_bound_witness:
  "packetize [[0x67, 0xAA], [0x68, 0xBB]] =
     Some (Inr [[0x78, 0, 2, 0x67, 0xAA, 0, 2, 0x68, 0xBB]]) \<and>
   [0x78, 0, 2, 0x67, 0xAA, 0, 2, 0x68, 0xBB] \<in> set [[0x78, 0, 2, 0x67, 0xAA, 0, 2, 0x68, 0xBB :: byte]] \<and>
   int (length [0x78, 0, 2, 0x67, 0xAA, 0, 2, 0x68, 0xBB :: byte]) \<le> PACKET_MAX"
  using packet_size_bound [of "[[0x67, 0xAA], [0x68, 0xBB]]"] packetize_example
  by simp

text \<open>
  Claim C6. The payloads the driver returns are those of consecutive non-empty groups of
  the input units. A group of one unit gives that unit unchanged (or its FU-A packets
  when it is above the limit); only a group of two or more units gives a STAP-A packet,
  which aggregates exactly the units of the group.
\<close>

theorem stap_a_minimum:
  assumes "packetize nals = Some (Inr pkts)"
  shows "\<exists>groups. concat groups = nals \<and> [] \<notin> set groups \<and>
           pkts = concat (map (\<lambda>g.
             if length g = 1 then
               (if int (length (hd g)) > PACKET_MAX then fu_packets (hd g) else [hd g])
             else [stap_packet g]) groups)"
proof -
  from packetize_groups [OF assms] obtain groups where
    g: "concat groups = nals" "\<forall>g \<in> set groups. group_ok g"
       "pkts = concat (map emit_group groups)"
    by blast
  from g(2) have "[] \<notin> set groups" by (auto simp: group_ok_def)
  with g(1,3) show ?thesis
    by (intro exI [of _ groups]) (simp add: emit_group_def [abs_def])
qed

text \<open>The theorem at scenario 2.\<close>

theorem stap_a_minimum_witness:
  "packetize [[0x67, 0xAA], [0x68, 0xBB]] =
     Some (Inr [[0x78, 0, 2, 0x67, 0xAA, 0, 2, 0x68, 0xBB]]) \<and>
   (\<exists>groups. concat groups = [[0x67, 0xAA], [0x68, 0xBB]] \<and> [] \<notin> set groups \<and>
      [[0x78, 0, 2, 0x67, 0xAA, 0, 2, 0x68, 0xBB]] = concat (map (\<lambda>g.
             if length g = 1 then
               (if int (length (hd g)) > PACKET_MAX then fu_packets (hd g) else [hd g])
             else [stap_packet g]) groups))"
  using stap_a_minimum [OF packetize_example] packetize_example
  by simp

section \<open>Scanning a stream of start codes and units\<close>

text \<open>
  \<open>has_zero_run n\<close>: the unit contains \<open>00 00 00\<close> or \<open>00 00 01\<close>, the two patterns at which
  the scanner ends a unit (every start code, \<open>00 00 01\<close> or \<open>00 00 00 01\<close>, contains one).
  \<open>scan_clean n\<close>: the unit is not empty, does not end in a zero byte and contains neither
  pattern. \<open>scan_inner n\<close> is what a unit in front of a start code needs: neither pattern
  and no zero byte at its end (it may be empty). \<open>scan_last n\<close> is what the last unit
  needs: neither pattern and a byte that is not zero (it may end in zero bytes).
  \<open>annexb nals\<close> is the byte stream \<open>00 00 00 01 ++ N1 ++ 00 00 00 01 ++ N2 ++ ...\<close>.
\<close>

fun has_zero_run :: "bytes \<Rightarrow> bool" where
  "has_zero_run (a # b # c # xs) =
     ((a = 0 \<and> b = 0 \<and> (c = 0 \<or> c = 1)) \<or> has_zero_run (b # c # xs))"
| "has_zero_run xs = False"

definition scan_clean :: "bytes \<Rightarrow> bool" where
  "scan_clean n \<longleftrightarrow> n \<noteq> [] \<and> last n \<noteq> 0 \<and> \<not> has_zero_run n"

definition scan_inner :: "bytes \<Rightarrow> bool" where
  "scan_inner n \<longleftrightarrow> (n = [] \<or> last n \<noteq> 0) \<and> \<not> has_zero_run n"

definition scan_last :: "bytes \<Rightarrow> bool" where
  "scan_last n \<longleftrightarrow> (\<exists>b \<in> set n. b \<noteq> 0) \<and> \<not> has_zero_run n"

definition annexb :: "bytes list \<Rightarrow> bytes" where
  "annexb nals = concat (map (\<lambda>n. start_code4 @ n) nals)"

text \<open>
  The scanner reads the buffer only from its index on: in front of a prefix every index it
  returns moves by the length of the prefix, and the units it yields stay the same.
\<close>

definition shift_result :: "nat \<Rightarrow> error + nat option \<Rightarrow> error + nat option" where
  "shift_result k r = map_sum id (map_option (\<lambda>i. k + i)) r"

lemma byte_ne_shift:
  "length pre \<le> k \<Longrightarrow> byte_ne (pre @ buf) k v = byte_ne buf (k - length pre) v"
  by (auto simp add: byte_ne_def nth_append)

lemma cond_shift:
  "not_start3 (pre @ buf) (length pre + i) = not_start3 buf i"
  "not_start4 (pre @ buf) (length pre + i) = not_start4 buf i"
  "not_zeros3 (pre @ buf) (length pre + i) = not_zeros3 buf i"
  by (simp_all add: not_start3_def not_start4_def not_zeros3_def byte_ne_shift)

lemma find_nal_end_shift:
  "find_nal_end (pre @ buf) (length pre + i) = shift_result (length pre) (find_nal_end buf i)"
proof (induction buf i rule: find_nal_end.induct)
  case (1 buf i)
  show ?case
  proof (cases "py_and (not_zeros3 buf i) (not_start3 buf i)")
    case None
    then show ?thesis
      by (subst find_nal_end.simps, subst (2) find_nal_end.simps)
         (simp add: cond_shift shift_result_def)
  next
    case (Some c)
    show ?thesis
    proof (cases "c \<and> \<not> i + 1 + 3 \<ge> length buf")
      case True
      with Some have "find_nal_end (pre @ buf) (length pre + (i + 1)) =
                      shift_result (length pre) (find_nal_end buf (i + 1))"
        by (intro "1.IH") auto
      with Some True show ?thesis
        by (subst find_nal_end.simps, subst (2) find_nal_end.simps)
           (simp add: cond_shift add.assoc)
    next
      case False
      with Some show ?thesis
        by (subst find_nal_end.simps, subst (2) find_nal_end.simps)
           (auto simp add: cond_shift shift_result_def)
    qed
  qed
qed

lemma skip_to_start_shift:
  "skip_to_start (pre @ buf) (length pre + i) = shift_result (length pre) (skip_to_start buf i)"
proof (induction buf i rule: skip_to_start.induct)
  case (1 buf i)
  show ?case
  proof (cases "py_and (not_start3 buf i) (not_start4 buf i)")
    case None
    then show ?thesis
      by (subst skip_to_start.simps, subst (2) skip_to_start.simps)
         (simp add: cond_shift shift_result_def)
  next
    case (Some c)
    show ?thesis
    proof (cases "c \<and> \<not> i + 1 + 4 \<ge> length buf")
      case True
      with Some have "skip_to_start (pre @ buf) (length pre + (i + 1)) =
                      shift_result (length pre) (skip_to_start buf (i + 1))"
        by (intro "1.IH") auto
      with Some True show ?thesis
        by (subst skip_to_start.simps, subst (2) skip_to_start.simps)
           (simp add: cond_shift add.assoc)
    next
      case False
      with Some show ?thesis
        by (subst skip_to_start.simps, subst (2) skip_to_start.simps)
           (auto simp add: cond_shift shift_result_def)
    qed
  qed
qed


lemma py_slice_shift:
  "py_slice (pre @ buf) (length pre + a) (length pre + b) = py_slice buf a b"
  by (simp add: py_slice_def)

lemma py_slice_shift_end:
  "py_slice (pre @ buf) (length pre + a) (length (pre @ buf)) = py_slice buf a (length buf)"
  using py_slice_shift [of pre buf a "length buf"] by simp

lemma split_bitstream_from_shift:
  "split_bitstream_from (pre @ buf) (length pre + i) = split_bitstream_from buf i"
proof (induction buf i rule: split_bitstream_from.induct)
  case (1 buf i)
  let ?k = "length pre"
  show ?case
  proof (cases "skip_to_start buf i")
    case (Inl e)
    then show ?thesis
      by (subst split_bitstream_from.simps, subst (2) split_bitstream_from.simps)
         (simp add: skip_to_start_shift shift_result_def)
  next
    case (Inr o1)
    show ?thesis
    proof (cases o1)
      case None
      with Inr show ?thesis
        by (subst split_bitstream_from.simps, subst (2) split_bitstream_from.simps)
           (simp add: skip_to_start_shift shift_result_def)
    next
      case (Some i1)
      note s1 = Inr [unfolded Some]
      have s1': "skip_to_start (pre @ buf) (?k + i) = Inr (Some (?k + i1))"
        by (simp add: skip_to_start_shift s1 shift_result_def)
      show ?thesis
      proof (cases "not_start3 buf i1")
        case None
        then have "not_start3 (pre @ buf) (?k + i1) = None" by (simp add: cond_shift)
        with None s1 s1' show ?thesis
          by (subst split_bitstream_from.simps, subst (2) split_bitstream_from.simps) simp
      next
        case c: (Some c)
        then have c': "not_start3 (pre @ buf) (?k + i1) = Some c" by (simp add: cond_shift)
        define i2 where "i2 = (if c then i1 + 1 else i1) + 3"
        have i2': "(if c then ?k + i1 + 1 else ?k + i1) + 3 = ?k + i2"
          by (simp add: i2_def)
        have lhs: "split_bitstream_from (pre @ buf) (?k + i) =
              (case find_nal_end (pre @ buf) (?k + i2) of
                  Inl e \<Rightarrow> ([], Raised e)
                | Inr None \<Rightarrow> ([py_slice (pre @ buf) (?k + i2) (length (pre @ buf))], Returned)
                | Inr (Some nal_end) \<Rightarrow>
                    (case split_bitstream_from (pre @ buf) nal_end of
                       (nals, r) \<Rightarrow> (py_slice (pre @ buf) (?k + i2) nal_end # nals, r)))"
          by (subst split_bitstream_from.simps) (simp only: s1' c' i2' sum.case option.case)
        have rhs: "split_bitstream_from buf i =
              (case find_nal_end buf i2 of
                  Inl e \<Rightarrow> ([], Raised e)
                | Inr None \<Rightarrow> ([py_slice buf i2 (length buf)], Returned)
                | Inr (Some nal_end) \<Rightarrow>
                    (case split_bitstream_from buf nal_end of
                       (nals, r) \<Rightarrow> (py_slice buf i2 nal_end # nals, r)))"
          by (subst split_bitstream_from.simps) (simp only: s1 c i2_def sum.case option.case)
        show ?thesis
        proof (cases "find_nal_end buf i2")
          case (Inl e)
          then show ?thesis
            unfolding lhs rhs by (simp add: find_nal_end_shift shift_result_def)
        next
          case (Inr o2)
          show ?thesis
          proof (cases o2)
            case None
            with Inr show ?thesis
              unfolding lhs rhs
              by (simp add: find_nal_end_shift shift_result_def py_slice_shift_end
                  del: length_append)
          next
            case (Some nal_end)
            note f = Inr [unfolded Some]
            have ih: "split_bitstream_from (pre @ buf) (?k + nal_end) =
                      split_bitstream_from buf nal_end"
              using "1.IH" [OF s1 refl c] f by (simp add: i2_def)
            show ?thesis
              unfolding lhs rhs
              by (simp add: find_nal_end_shift shift_result_def f ih py_slice_shift)
          qed
        qed
      qed
    qed
  qed
qed


lemmas cond_defs = py_and_def py_or_def not_start3_def not_start4_def not_zeros3_def byte_ne_def

lemma cond_clean_head:
  assumes "scan_clean n"
  shows "py_and (not_zeros3 (n @ rest) 0) (not_start3 (n @ rest) 0) = Some True"
proof (cases n)
  case Nil
  with assms show ?thesis by (simp add: scan_clean_def)
next
  case n1: (Cons a as)
  show ?thesis
  proof (cases as)
    case Nil
    with n1 assms show ?thesis by (simp add: scan_clean_def cond_defs)
  next
    case n2: (Cons b bs)
    show ?thesis
    proof (cases bs)
      case Nil
      with n1 n2 assms show ?thesis by (auto simp add: scan_clean_def cond_defs)
    next
      case (Cons c cs)
      with n1 n2 assms show ?thesis by (auto simp add: scan_clean_def cond_defs)
    qed
  qed
qed

lemma has_zero_run_drop: "has_zero_run (drop i n) \<Longrightarrow> has_zero_run n"
proof (induction n arbitrary: i rule: has_zero_run.induct)
  case (1 a b c xs)
  then show ?case by (cases i) auto
qed (auto simp: drop_Cons split: nat.splits)

lemma scan_clean_drop: "scan_clean n \<Longrightarrow> i < length n \<Longrightarrow> scan_clean (drop i n)"
  by (auto simp: scan_clean_def dest: has_zero_run_drop)

lemma cond_clean:
  assumes "scan_clean n" "i < length n"
  shows "py_and (not_zeros3 (n @ rest) i) (not_start3 (n @ rest) i) = Some True"
proof -
  have "n @ rest = take i n @ (drop i n @ rest)" by simp
  moreover have "length (take i n) + 0 = i" using assms(2) by simp
  ultimately have
    "not_zeros3 (n @ rest) i = not_zeros3 (drop i n @ rest) 0"
    "not_start3 (n @ rest) i = not_start3 (drop i n @ rest) 0"
    by (metis cond_shift(3), metis cond_shift(1))
  then show ?thesis
    using cond_clean_head [OF scan_clean_drop [OF assms]] by simp
qed


lemma find_nal_end_clean_next:
  assumes "n = [] \<or> scan_clean n" and rest: "take 3 rest = [0, 0, 0]" "4 \<le> length rest"
  shows "i \<le> length n \<Longrightarrow> find_nal_end (n @ rest) i = Inr (Some (length n))"
proof (induction "length n - i" arbitrary: i)
  case 0
  then have i: "i = length n" by simp
  from rest obtain r where r: "rest = 0 # 0 # 0 # r"
    by (cases rest; cases "tl rest"; cases "tl (tl rest)") auto
  have "py_and (not_zeros3 (n @ rest) (length n + 0)) (not_start3 (n @ rest) (length n + 0))
        = Some False"
    unfolding cond_shift by (simp add: r cond_defs)
  then show ?case unfolding i by (subst find_nal_end.simps) simp
next
  case (Suc d)
  then have lt: "i < length n" by simp
  from assms(1) lt have "scan_clean n" by auto
  then have c: "py_and (not_zeros3 (n @ rest) i) (not_start3 (n @ rest) i) = Some True"
    using lt by (rule cond_clean)
  have "find_nal_end (n @ rest) (i + 1) = Inr (Some (length n))"
    using Suc.hyps lt by (intro Suc.hyps(1)) auto
  with c lt rest(2) show ?case by (subst find_nal_end.simps) simp
qed


lemma split_bitstream_from_start:
  "split_bitstream_from (start_code4 @ body) 0 =
     (case find_nal_end body 0 of
        Inl e \<Rightarrow> ([], Raised e)
      | Inr None \<Rightarrow> ([body], Returned)
      | Inr (Some k) \<Rightarrow>
          (case split_bitstream_from body k of (nals, r) \<Rightarrow> (take k body # nals, r)))"
proof -
  have s: "skip_to_start (start_code4 @ body) 0 = Inr (Some 0)"
    by (subst skip_to_start.simps) (simp add: start_code4_def cond_defs)
  have c: "not_start3 (start_code4 @ body) 0 = Some True"
    by (simp add: start_code4_def cond_defs)
  have len: "length start_code4 = 4" by (simp add: start_code4_def)
  have f: "find_nal_end (start_code4 @ body) 4 = shift_result 4 (find_nal_end body 0)"
    using find_nal_end_shift [of start_code4 body 0, unfolded len] by simp
  have r: "split_bitstream_from (start_code4 @ body) (4 + k) = split_bitstream_from body k" for k
    using split_bitstream_from_shift [of start_code4 body k, unfolded len] by simp
  have p: "py_slice (start_code4 @ body) 4 (4 + k) = take k body" for k
    using py_slice_shift [of start_code4 body 0 k, unfolded len] by (simp add: py_slice_def)
  have q: "py_slice (start_code4 @ body) 4 (length (start_code4 @ body)) = body"
    by (simp add: py_slice_def len)
  show ?thesis
    by (subst split_bitstream_from.simps)
       (simp add: s c f r p q shift_result_def split: sum.splits option.splits
          del: length_append)
qed

lemma annexb_Cons: "annexb (n # ns) = start_code4 @ n @ annexb ns"
  by (simp add: annexb_def)

lemma split_bitstream_annexb:
  assumes "nals \<noteq> []" "\<forall>n \<in> set (butlast nals). n = [] \<or> scan_clean n"
    "find_nal_end (last nals) 0 = Inr None"
  shows "split_bitstream_from (annexb nals) 0 = (nals, Returned)"
  using assms
proof (induction nals)
  case Nil
  then show ?case by simp
next
  case (Cons n ns)
  show ?case
  proof (cases ns)
    case Nil
    with Cons.prems show ?thesis
      by (simp add: annexb_Cons annexb_def split_bitstream_from_start)
  next
    case ns: (Cons n' ns')
    from Cons.prems ns have cl: "n = [] \<or> scan_clean n" by simp
    have rest: "take 3 (annexb ns) = [0, 0, 0]" "4 \<le> length (annexb ns)"
      by (simp_all add: ns annexb_Cons start_code4_def)
    have f: "find_nal_end (n @ annexb ns) 0 = Inr (Some (length n))"
      by (rule find_nal_end_clean_next [OF cl rest]) simp
    have ih: "split_bitstream_from (annexb ns) 0 = (ns, Returned)"
      using Cons.prems ns by (intro Cons.IH) auto
    have "split_bitstream_from (n @ annexb ns) (length n + 0) =
          split_bitstream_from (annexb ns) 0"
      by (rule split_bitstream_from_shift)
    with ih have r: "split_bitstream_from (n @ annexb ns) (length n) = (ns, Returned)"
      by simp
    show ?thesis
      by (simp add: annexb_Cons split_bitstream_from_start f r)
  qed
qed

lemma packer_split_bitstream_from_eq:
  "4 \<le> length buf \<Longrightarrow>
   packer_split_bitstream_from buf i = Some (split_bitstream_from buf i)"
proof (induction buf i rule: split_bitstream_from.induct)
  case (1 buf i)
  show ?case
  proof (cases "skip_to_start buf i")
    case (Inl e)
    with "1.prems" show ?thesis
      by (subst packer_split_bitstream_from.simps, subst split_bitstream_from.simps) simp
  next
    case (Inr o1)
    show ?thesis
    proof (cases o1)
      case None
      with Inr "1.prems" show ?thesis
        by (subst packer_split_bitstream_from.simps, subst split_bitstream_from.simps) simp
    next
      case (Some i1)
      note s1 = Inr [unfolded Some]
      show ?thesis
      proof (cases "not_start3 buf i1")
        case None
        with s1 "1.prems" show ?thesis
          by (subst packer_split_bitstream_from.simps, subst split_bitstream_from.simps) simp
      next
        case c: (Some c)
        show ?thesis
        proof (cases "find_nal_end buf ((if c then i1 + 1 else i1) + 3)")
          case (Inl e)
          with s1 c "1.prems" show ?thesis
            by (subst packer_split_bitstream_from.simps, subst split_bitstream_from.simps) simp
        next
          case (Inr o2)
          show ?thesis
          proof (cases o2)
            case None
            with Inr s1 c "1.prems" show ?thesis
              by (subst packer_split_bitstream_from.simps, subst split_bitstream_from.simps)
                 simp
          next
            case (Some nal_end)
            note f = Inr [unfolded Some]
            have ih: "packer_split_bitstream_from buf nal_end =
                      Some (split_bitstream_from buf nal_end)"
              using "1.IH" [OF s1 refl c f] "1.prems" by simp
            with s1 c f "1.prems" show ?thesis
              by (subst packer_split_bitstream_from.simps, subst split_bitstream_from.simps)
                 (simp split: prod.splits)
          qed
        qed
      qed
    qed
  qed
qed


text \<open>
  The last unit may end in zero bytes: behind it the buffer ends, and the search for the
  end of the unit reads at most up to the fourth byte from the end.
\<close>

lemma has_zero_run_at:
  assumes "i + 2 < length n" "n ! i = 0" "n ! (i + 1) = 0" "n ! (i + 2) = 0 \<or> n ! (i + 2) = 1"
  shows "has_zero_run n"
proof -
  from assms(1) have "drop i n = n ! i # n ! (i + 1) # n ! (i + 2) # drop (i + 3) n"
    by (simp add: Cons_nth_drop_Suc [symmetric] numeral_3_eq_3)
  with assms(2-4) have "has_zero_run (drop i n)" by auto
  then show ?thesis by (rule has_zero_run_drop)
qed

lemma cond_no_run:
  assumes "\<not> has_zero_run n" "i + 2 < length n"
  shows "py_and (not_zeros3 n i) (not_start3 n i) = Some True"
  using assms has_zero_run_at [of i n] by (auto simp: cond_defs)

lemma find_nal_end_no_run:
  assumes "\<not> has_zero_run n"
  shows "i + 3 < length n \<Longrightarrow> find_nal_end n i = Inr None"
proof (induction "length n - i" arbitrary: i)
  case 0
  then show ?case by simp
next
  case (Suc d)
  have c: "py_and (not_zeros3 n i) (not_start3 n i) = Some True"
    using Suc.prems by (intro cond_no_run [OF assms]) simp
  show ?case
  proof (cases "i + 1 + 3 \<ge> length n")
    case True
    with c show ?thesis by (subst find_nal_end.simps) simp
  next
    case False
    then have "find_nal_end n (i + 1) = Inr None"
      using Suc.hyps by (intro Suc.hyps(1)) auto
    with c False show ?thesis by (subst find_nal_end.simps) simp
  qed
qed

lemma cond_last_head:
  assumes "scan_last n"
  shows "py_and (not_zeros3 n 0) (not_start3 n 0) = Some True"
proof (cases "2 < length n")
  case True
  with assms show ?thesis by (intro cond_no_run) (simp_all add: scan_last_def)
next
  case False
  then consider "n = []" | a where "n = [a]" | a b where "n = [a, b]"
    by (cases n; cases "tl n"; cases "tl (tl n)") auto
  then show ?thesis
    using assms by cases (auto simp: scan_last_def cond_defs)
qed

lemma find_nal_end_last:
  assumes "scan_last n"
  shows "find_nal_end n 0 = Inr None"
proof (cases "0 + 1 + 3 \<ge> length n")
  case True
  with cond_last_head [OF assms] show ?thesis by (subst find_nal_end.simps) simp
next
  case False
  then have "find_nal_end n (0 + 1) = Inr None"
    using assms by (intro find_nal_end_no_run) (simp_all add: scan_last_def)
  with cond_last_head [OF assms] False show ?thesis by (subst find_nal_end.simps) simp
qed

text \<open>
  Claim C9, as amended. Take a non-empty sequence of units, none of which contains
  \<open>00 00 00\<close> or \<open>00 00 01\<close>, in which no unit that is followed by another ends in a zero
  byte and the last unit has a byte that is not zero. Then the scanner (of \<open>H264Encoder\<close>
  and of \<open>H264Packer\<close> alike) run over \<open>00 00 00 01 ++ N1 ++ 00 00 00 01 ++ N2 ++ ...\<close> yields
  exactly \<open>[N1, N2, ...]\<close> and returns.
\<close>

theorem split_bitstream_annexb_clean:
  assumes "nals \<noteq> []" and "\<forall>n \<in> set (butlast nals). scan_inner n"
    and "scan_last (last nals)"
  shows "split_bitstream (annexb nals) = (nals, Returned) \<and>
         packer_split_bitstream (annexb nals) = Some (nals, Returned)"
proof -
  from assms(3) have "find_nal_end (last nals) 0 = Inr None"
    by (rule find_nal_end_last)
  moreover from assms(2) have "\<forall>n \<in> set (butlast nals). n = [] \<or> scan_clean n"
    by (auto simp: scan_inner_def scan_clean_def)
  ultimately have e: "split_bitstream_from (annexb nals) 0 = (nals, Returned)"
    using assms(1) by (intro split_bitstream_annexb)
  from assms(1) obtain n ns where "nals = n # ns" by (cases nals) auto
  then have "4 \<le> length (annexb nals)" by (simp add: annexb_Cons start_code4_def)
  then have "packer_split_bitstream_from (annexb nals) 0 = Some (nals, Returned)"
    by (simp add: packer_split_bitstream_from_eq e)
  with e show ?thesis
    by (simp add: split_bitstream_def packer_split_bitstream_def)
qed

text \<open>
  The theorem at the units \<open>67 AA\<close> and \<open>68 00\<close>: the last unit ends in a zero byte and is
  scanned back whole.
\<close>

theorem split_bitstream_annexb_clean_witness:
  "[[0x67, 0xAA], [0x68, 0x00 :: byte]] \<noteq> [] \<and>
   scan_inner [0x67, 0xAA] \<and> scan_last [0x68, 0x00] \<and>
   split_bitstream [0, 0, 0, 1, 0x67, 0xAA, 0, 0, 0, 1, 0x68, 0x00] =
     ([[0x67, 0xAA], [0x68, 0x00]], Returned) \<and>
   packer_split_bitstream [0, 0, 0, 1, 0x67, 0xAA, 0, 0, 0, 1, 0x68, 0x00] =
     Some ([[0x67, 0xAA], [0x68, 0x00]], Returned)"
  using split_bitstream_annexb_clean [of "[[0x67, 0xAA], [0x68, 0x00]]"]
  by (simp add: scan_inner_def scan_last_def annexb_def start_code4_def)

text \<open>
  The claim as stated asks only that no unit contains a start code. The units \<open>67 00\<close> and
  \<open>68\<close> contain none (not even \<open>00 00 00\<close>), yet in \<open>00 00 00 01 67 00 00 00 00 01 68\<close> the
  zero byte that ends the first unit and the start code behind it form \<open>00 00 00\<close>, where
  the scanner ends the unit: it yields \<open>67\<close> and \<open>68\<close>. The unit \<open>67 00 00 00 68\<close> contains
  no start code either, and the scanner ends it at its \<open>00 00 00\<close>: it yields \<open>67\<close>. When
  the last unit is \<open>00\<close>, and when there is no unit at all, the scanner raises
  \<open>IndexError\<close>.
\<close>

theorem split_bitstream_annexb_counterexample:
  "\<not> has_zero_run [0x67, 0] \<and> \<not> has_zero_run [0x68] \<and>
   annexb [[0x67, 0], [0x68]] = [0, 0, 0, 1, 0x67, 0, 0, 0, 0, 1, 0x68] \<and>
   split_bitstream (annexb [[0x67, 0], [0x68]]) = ([[0x67], [0x68]], Returned) \<and>
   [[0x67], [0x68]] \<noteq> [[0x67, 0], [0x68 :: byte]] \<and>
   split_bitstream (annexb [[0x67, 0, 0, 0, 0x68]]) = ([[0x67]], Returned) \<and>
   split_bitstream (annexb [[0x67], [0]]) = ([[0x67]], Raised IndexError) \<and>
   split_bitstream (annexb []) = ([], Raised IndexError)"
  by (simp add: annexb_def start_code4_def scanner_defs)

section \<open>From the byte stream to payloads and back\<close>

















text \<open>
  The rounds of the driver. \<open>driver_rounds\<close> is the loop of \<open>_packetize\<close> again, with
  the same test on the length and the same call of \<open>_packetize_stap_a\<close>, but for every
  round it records the packages the round has consumed in place of the payloads it has
  appended: the package in hand when it goes to the fragmenter, and otherwise the
  package in hand together with the packages that \<open>_packetize_stap_a\<close> has taken from
  the iterator and not handed back. It stops where the driver raises.
  \<open>forwarded_units\<close> are the units sent as they are: those of at most \<open>PACKET_MAX\<close>
  bytes that a round has consumed alone, for which \<open>_packetize_stap_a\<close> returns the
  unit itself as the payload.
\<close>

function driver_rounds :: "bytes option \<Rightarrow> bytes list \<Rightarrow> bytes list list" where
  "driver_rounds package it =
     (case package of
        None \<Rightarrow> []
      | Some p \<Rightarrow>
          if int (length p) > PACKET_MAX then
            [p] # driver_rounds (fst (py_next it)) (snd (py_next it))
          else
            (case packetize_stap_a p it of
               Inl e \<Rightarrow> []
             | Inr (packetized, package1, it1) \<Rightarrow>
                 take (length (p # it) - length (opt_list package1 @ it1)) (p # it)
                 # driver_rounds package1 it1))"
  by pat_completeness auto
termination
proof (relation "measure (\<lambda>x. length (opt_list (fst x)) + length (snd x))",
    goal_cases)
  case 1
  show ?case by simp
next
  case 2
  then show ?case by simp
next
  case 3
  then show ?case by (auto dest!: packetize_stap_a_consumes)
qed

declare driver_rounds.simps [simp del]

definition forwarded_units :: "bytes list \<Rightarrow> bytes list" where
  "forwarded_units nals =
     map hd (filter (\<lambda>g. length g = 1 \<and> int (length (hd g)) \<le> PACKET_MAX)
       (driver_rounds (fst (py_next nals)) (snd (py_next nals))))"

lemma driver_rounds_None: "driver_rounds None it = []"
  by (simp add: driver_rounds.simps)

lemma driver_rounds_fu:
  "int (length p) > PACKET_MAX \<Longrightarrow>
   driver_rounds (Some p) it = [p] # driver_rounds (fst (py_next it)) (snd (py_next it))"
  by (subst driver_rounds.simps) simp

lemma driver_rounds_stap:
  "\<not> int (length p) > PACKET_MAX \<Longrightarrow>
   packetize_stap_a p it = Inr (packetized, package1, it1) \<Longrightarrow>
   driver_rounds (Some p) it =
   take (length (p # it) - length (opt_list package1 @ it1)) (p # it)
   # driver_rounds package1 it1"
  by (subst driver_rounds.simps) simp

lemma packetize_loop_rounds:
  "packetize_loop package it acc = Some (Inr pkts) \<Longrightarrow> (package = None \<longrightarrow> it = []) \<Longrightarrow>
   concat (driver_rounds package it) = opt_list package @ it \<and>
   (\<forall>g \<in> set (driver_rounds package it). group_ok g) \<and>
   pkts = acc @ concat (map emit_group (driver_rounds package it))"
proof (induction "length (opt_list package) + length it" arbitrary: package it acc
    rule: less_induct)
  case less
  show ?case
  proof (cases package)
    case None
    with less.prems show ?thesis
      by (simp add: packetize_loop_None driver_rounds_None)
  next
    case (Some p)
    show ?thesis
    proof (cases "int (length p) > PACKET_MAX")
      case True
      let ?pk = "fst (py_next it)" and ?it = "snd (py_next it)"
      from less.prems(1) have r: "packetize_loop ?pk ?it (acc @ fu_packets p) = Some (Inr pkts)"
        by (simp add: Some packetize_loop_fu [OF True])
      have "length (opt_list ?pk) + length ?it < length (opt_list package) + length it"
        by (simp add: Some)
      from less.hyps [OF this r] py_next_None [of it]
      have g: "concat (driver_rounds ?pk ?it) = opt_list ?pk @ ?it"
        "\<forall>g \<in> set (driver_rounds ?pk ?it). group_ok g"
        "pkts = (acc @ fu_packets p) @ concat (map emit_group (driver_rounds ?pk ?it))"
        by blast+
      from True have pne: "p \<noteq> []" by (auto simp: PACKET_MAX_def)
      have "group_ok [p]" using pne by (simp add: group_ok_def)
      moreover have "emit_group [p] = fu_packets p" using True by (simp add: emit_group_def)
      ultimately show ?thesis
        using g by (simp add: Some driver_rounds_fu [OF True] py_next_concat)
    next
      case False
      from less.prems(1) obtain packetized package1 it1 where
        st: "packetize_stap_a p it = Inr (packetized, package1, it1)"
        by (cases "packetize_stap_a p it")
           (auto simp: Some packetize_loop_stap_error [OF False])
      from less.prems(1) have r: "packetize_loop package1 it1 (acc @ [packetized]) = Some (Inr pkts)"
        by (simp add: Some packetize_loop_stap [OF False st])
      from packetize_stap_a_spec [OF st] obtain agg where a: "agg \<noteq> []"
        "p # it = agg @ opt_list package1 @ it1" "\<forall>n \<in> set agg. n \<noteq> []"
        "packetized = (if length agg = 1 then p else stap_packet agg)"
        "2 \<le> length agg \<longrightarrow> int (sum_list (map (\<lambda>n. 2 + length n) agg)) \<le> 1299"
        by blast
      have l: "length (p # it) = length agg + length (opt_list package1 @ it1)"
        unfolding a(2) by simp
      have tk: "take (length (p # it) - length (opt_list package1 @ it1)) (p # it) = agg"
        unfolding l by (simp add: a(2))
      from l a(1) have "length (opt_list package1) + length it1 < length (opt_list package) + length it"
        by (cases agg) (auto simp: Some)
      moreover have "package1 = None \<longrightarrow> it1 = []"
        using st by (auto dest: packetize_stap_a_exhausted)
      ultimately have g: "concat (driver_rounds package1 it1) = opt_list package1 @ it1"
        "\<forall>g \<in> set (driver_rounds package1 it1). group_ok g"
        "pkts = (acc @ [packetized]) @ concat (map emit_group (driver_rounds package1 it1))"
        using less.hyps [OF _ r] by blast+
      from a(1,2) have hd: "hd agg = p" by (cases agg) auto
      from a(1) have "0 < length agg" by simp
      then have "length agg = 1 \<or> 2 \<le> length agg" by linarith
      then have "group_ok agg"
        using a by (auto simp: group_ok_def)
      moreover have "emit_group agg = [packetized]"
        using a(4) False hd by (simp add: emit_group_def)
      moreover have "driver_rounds (Some p) it = agg # driver_rounds package1 it1"
        unfolding driver_rounds_stap [OF False st] tk ..
      ultimately show ?thesis
        using g a(2) by (simp add: Some)
    qed
  qed
qed

lemma forwarded_units_subset:
  assumes "[] \<notin> set nals"
  shows "set (forwarded_units nals) \<subseteq> set nals"
proof -
  let ?rounds = "driver_rounds (fst (py_next nals)) (snd (py_next nals))"
  from assms have "\<exists>pkts. packetize nals = Some (Inr pkts)"
    unfolding packetize_def by (intro packetize_loop_succeeds) (simp add: py_next_concat)
  then obtain pkts where p: "packetize nals = Some (Inr pkts)" by blast
  from packetize_loop_rounds [of "fst (py_next nals)" "snd (py_next nals)" "[]" pkts]
    p py_next_None [of nals]
  have g: "concat ?rounds = nals"
    by (simp_all add: packetize_def py_next_concat)
  show ?thesis
  proof
    fix n assume "n \<in> set (forwarded_units nals)"
    then obtain r where r: "r \<in> set ?rounds" "length r = 1" "n = hd r"
      by (auto simp: forwarded_units_def)
    from r(2,3) have "n \<in> set r" by (cases r) auto
    with r(1) have "n \<in> set (concat ?rounds)" by auto
    then show "n \<in> set nals" by (simp only: g)
  qed
qed


















end
